theory Spec2Isabelle
  imports Main
begin

section \<open>The SimpleRisc two-pass assembler\<close>

text \<open>
  A shallow embedding of \<^verbatim>\<open>simple_risc_assembler_with_modifiers.py\<close>.
  Python's unbounded integers are \<open>int\<close>, its strings are \<open>string\<close> (lists of
  8-bit characters, read as the code points below 256), its dictionaries are maps, and every exception the
  code can raise (\<^verbatim>\<open>IndexError\<close> from \<^verbatim>\<open>operands[i]\<close>, \<^verbatim>\<open>ValueError\<close> from
  \<^verbatim>\<open>int(...)\<close>) is a value of a sum type. What the code prints as an error or a warning
  is a value of the datatype \<open>diag\<close>.
\<close>

datatype py_error = IndexError | ValueError

subsection \<open>Static tables\<close>

definition OPCODES :: "string \<rightharpoonup> string" where
  "OPCODES = map_of
    [(''add'', ''00000''), (''sub'', ''00001''), (''mul'', ''00010''), (''div'', ''00011''),
     (''mod'', ''00100''), (''cmp'', ''00101''), (''and'', ''00110''), (''or'', ''00111''),
     (''not'', ''01000''), (''mov'', ''01001''),
     (''addu'', ''00000''), (''subu'', ''00001''), (''mulu'', ''00010''), (''divu'', ''00011''),
     (''modu'', ''00100''), (''cmpu'', ''00101''), (''andu'', ''00110''), (''oru'', ''00111''),
     (''notu'', ''01000''), (''movu'', ''01001''),
     (''addh'', ''00000''), (''subh'', ''00001''), (''mulh'', ''00010''), (''divh'', ''00011''),
     (''modh'', ''00100''), (''cmph'', ''00101''), (''andh'', ''00110''), (''orh'', ''00111''),
     (''noth'', ''01000''), (''movh'', ''01001''),
     (''lsl'', ''01010''), (''lsr'', ''01011''), (''asr'', ''01100''), (''nop'', ''01101''),
     (''ld'', ''01110''), (''st'', ''01111''), (''beq'', ''10000''), (''bgt'', ''10001''),
     (''b'', ''10010''), (''call'', ''10011''), (''ret'', ''10100'')]"

definition MODIFIER_OPCODES :: "string list" where
  "MODIFIER_OPCODES =
    [''addu'', ''subu'', ''mulu'', ''divu'', ''modu'',
     ''cmpu'', ''andu'', ''oru'', ''notu'', ''movu'',
     ''addh'', ''subh'', ''mulh'', ''divh'', ''modh'',
     ''cmph'', ''andh'', ''orh'', ''noth'', ''movh'']"

definition REGISTERS :: "string \<rightharpoonup> string" where
  "REGISTERS = map_of
    [(''r0'', ''0000''), (''r1'', ''0001''), (''r2'', ''0010''), (''r3'', ''0011''),
     (''r4'', ''0100''), (''r5'', ''0101''), (''r6'', ''0110''), (''r7'', ''0111''),
     (''r8'', ''1000''), (''r9'', ''1001''), (''r10'', ''1010''), (''r11'', ''1011''),
     (''r12'', ''1100''), (''r13'', ''1101''), (''r14'', ''1110''), (''sp'', ''1110''),
     (''r15'', ''1111''), (''ra'', ''1111'')]"

text \<open>\<^verbatim>\<open>REGISTERS.get(name, '0000')\<close>\<close>

definition reg_get :: "string \<Rightarrow> string" where
  "reg_get name = (case REGISTERS name of Some code \<Rightarrow> code | None \<Rightarrow> ''0000'')"

subsection \<open>Python string primitives\<close>

text \<open>
  \<^verbatim>\<open>bin(n)[2:]\<close> for \<open>n \<ge> 0\<close> is the binary numeral of \<open>n\<close> without leading zeros
  (\<^verbatim>\<open>'0'\<close> for zero). For \<open>n < 0\<close>, \<^verbatim>\<open>bin(n)\<close> is \<^verbatim>\<open>'-0b'\<close> followed by the numeral of
  \<open>-n\<close>, so that \<^verbatim>\<open>bin(n)[2:]\<close> starts with the letter \<^verbatim>\<open>b\<close>.
\<close>

definition bit_char :: "nat \<Rightarrow> char" where
  "bit_char d = (if d = 0 then CHR ''0'' else CHR ''1'')"

fun bin_nat :: "nat \<Rightarrow> string" where
  "bin_nat n = (if n < 2 then [bit_char n] else bin_nat (n div 2) @ [bit_char (n mod 2)])"

declare bin_nat.simps [simp del]

definition bin :: "int \<Rightarrow> string" where
  "bin v = (if v < 0 then ''-0b'' @ bin_nat (nat (- v)) else ''0b'' @ bin_nat (nat v))"

text \<open>
  \<^verbatim>\<open>s.zfill(width)\<close>: pad with \<^verbatim>\<open>'0'\<close> on the left up to \<open>width\<close> characters; a leading
  sign stays in front of the padding; a string that is long enough is returned as it is.
\<close>

definition zfill :: "nat \<Rightarrow> string \<Rightarrow> string" where
  "zfill width s =
     (case s of
        c # rest \<Rightarrow>
          if c = CHR ''+'' \<or> c = CHR ''-''
          then c # replicate (width - length s) (CHR ''0'') @ rest
          else replicate (width - length s) (CHR ''0'') @ s
      | [] \<Rightarrow> replicate width (CHR ''0''))"

text \<open>
  A decimal digit: what the pattern \<^verbatim>\<open>\d\<close> matches and what \<^verbatim>\<open>int\<close> converts, among
  the code points below 256.
\<close>

definition is_digit :: "char \<Rightarrow> bool" where
  "is_digit c = (c \<in> set ''0123456789'')"

text \<open>
  \<^verbatim>\<open>c.isdigit()\<close> for one character: among the code points below 256 it holds of the
  decimal digits and also of the superscripts two, three and one (\<^verbatim>\<open>\xb2\<close>, \<^verbatim>\<open>\xb3\<close>,
  \<^verbatim>\<open>\xb9\<close>), which \<^verbatim>\<open>int\<close> does not convert.
\<close>

definition char_isdigit :: "char \<Rightarrow> bool" where
  "char_isdigit c = (is_digit c \<or> c \<in> set [CHR 0xB2, CHR 0xB3, CHR 0xB9])"

text \<open>\<^verbatim>\<open>s.isdigit()\<close>: the string is not empty and \<^verbatim>\<open>isdigit\<close> holds of every character.\<close>

definition isdigit :: "string \<Rightarrow> bool" where
  "isdigit s = (s \<noteq> [] \<and> list_all char_isdigit s)"

definition startswith :: "string \<Rightarrow> string \<Rightarrow> bool" where
  "startswith s p = (take (length p) s = p)"

text \<open>The value of a decimal digit: its position in \<^verbatim>\<open>0123456789\<close>.\<close>

definition digit_val :: "char \<Rightarrow> int" where
  "digit_val c = int (length (takeWhile (\<lambda>d. d \<noteq> c) ''0123456789''))"

definition decimal :: "string \<Rightarrow> int" where
  "decimal s = foldl (\<lambda>n c. 10 * n + digit_val c) 0 s"

text \<open>
  The interpreter's limit on the number of digits that \<^verbatim>\<open>int\<close> converts from a
  string, at its default (\<^verbatim>\<open>sys.int_info.default_max_str_digits\<close>).
\<close>

definition int_max_str_digits :: nat where
  "int_max_str_digits = 4300"

text \<open>
  \<^verbatim>\<open>int(s)\<close> on the strings the assembler passes to it: characters of which
  \<^verbatim>\<open>isdigit\<close> holds, or what the pattern \<^verbatim>\<open>\d*\<close> matched, optionally after a minus
  sign. The conversion succeeds when the characters after the sign are decimal digits,
  at least one and no more than the limit. Everything else raises \<^verbatim>\<open>ValueError\<close>: the
  bare \<^verbatim>\<open>'-'\<close> that the memory-operand pattern lets through, a superscript digit, a
  literal with too many digits.
\<close>

definition py_int :: "string \<Rightarrow> py_error + int" where
  "py_int s =
     (let negative = startswith s ''-'';
          body = (if negative then tl s else s)
      in if body \<noteq> [] \<and> list_all is_digit body \<and> length body \<le> int_max_str_digits
         then Inr (if negative then - decimal body else decimal body)
         else Inl ValueError)"

subsection \<open>The bit-field codec\<close>

text \<open>
  \<^verbatim>\<open>to_binary(value, bits, signed=False)\<close>. Both branches end in
  \<^verbatim>\<open>bin(value)[2:].zfill(bits)\<close>; the signed branch first adds \<^verbatim>\<open>1 << bits\<close> to a
  negative value. There is no range check. The width is a \<open>nat\<close>: the assembler only
  calls the codec with the literals 16 and 27.
\<close>

definition to_binary :: "int \<Rightarrow> nat \<Rightarrow> bool \<Rightarrow> string" where
  "to_binary v bits signed =
     (if signed
      then (let v' = (if v < 0 then 2 ^ bits + v else v) in zfill bits (drop 2 (bin v')))
      else zfill bits (drop 2 (bin v)))"

subsection \<open>Parsed entries and the symbol table (pass 1)\<close>

text \<open>
  One element of \<^verbatim>\<open>processed_lines\<close>. For a line that carries only a label the
  Python dictionary holds \<^verbatim>\<open>None\<close> under \<^verbatim>\<open>'operands'\<close>, which is never read; the
  record holds the empty list there.
\<close>

record entry =
  line_num :: nat
  label :: "string option"
  mnemonic :: "string option"
  operands :: "string list"
  raw_line :: string

text \<open>Python truthiness of an optional string: neither \<^verbatim>\<open>None\<close> nor the empty string.\<close>

definition truthy :: "string option \<Rightarrow> bool" where
  "truthy s = (case s of None \<Rightarrow> False | Some t \<Rightarrow> t \<noteq> [])"

type_synonym label_map = "string \<rightharpoonup> int"

text \<open>
  The loop of pass 1 over the state \<open>(label_map, current_address)\<close>: the label is bound
  to the counter before the counter moves, and a later binding of the same label
  overwrites the earlier one (a dictionary store).
\<close>

fun pass1_loop :: "entry list \<Rightarrow> label_map \<times> int \<Rightarrow> label_map \<times> int" where
  "pass1_loop [] st = st"
| "pass1_loop (e # es) (lm, current_address) =
     pass1_loop es
       (if truthy (label e) then lm(the (label e) \<mapsto> current_address) else lm,
        if truthy (mnemonic e) then current_address + 1 else current_address)"

definition pass1 :: "entry list \<Rightarrow> label_map" where
  "pass1 es = fst (pass1_loop es (Map.empty, 0))"

subsection \<open>The instruction encoder (pass 2)\<close>

text \<open>What pass 2 prints: the interpolated values of each message, the raw line last.\<close>

datatype diag =
    UnknownMnemonic string string
  | UndefinedLabel string string
  | InvalidMemoryOperand string string
  | NotFullyImplemented string string
  | LengthNot32 nat string

text \<open>
  The outcome of the encoding part of one loop iteration (lines 118 to 228): either a
  message was printed and the iteration left with \<^verbatim>\<open>continue\<close>, or control reached the
  final width check with \<^verbatim>\<open>assembled_instruction\<close> holding \<^verbatim>\<open>None\<close> or a string.
\<close>

datatype gen = Skip diag | Assembled "string option"

text \<open>
  What one loop iteration of pass 2 leaves behind: a tuple appended to
  \<^verbatim>\<open>machine_code\<close> (after the width message, if that was printed), a message followed by
  \<^verbatim>\<open>continue\<close>, or nothing at all (\<^verbatim>\<open>assembled_instruction\<close> falsy at the width check).
\<close>

datatype result =
    Appended "diag option" nat string "string option"
  | Continued diag
  | Silent

definition is_int_literal :: "string \<Rightarrow> bool" where
  "is_int_literal s = (isdigit s \<or> (startswith s ''-'' \<and> isdigit (tl s)))"

text \<open>
  \<^verbatim>\<open>re.match(r'(-?\d*)\[(.*?)\]', mem_operand)\<close>: an optional minus sign and a run of
  digits, an opening bracket, then as few characters as possible (none of them a
  newline) up to the first closing bracket. The result is the pair of groups.
\<close>

definition match_mem_operand :: "string \<Rightarrow> (string \<times> string) option" where
  "match_mem_operand s =
     (let sign = (if startswith s ''-'' then ''-'' else []);
          s1 = drop (length sign) s;
          digits = takeWhile is_digit s1;
          s2 = dropWhile is_digit s1
      in case s2 of
           [] \<Rightarrow> None
         | c # s3 \<Rightarrow>
             if c \<noteq> CHR ''[''  then None
             else let body = takeWhile (\<lambda>x. x \<noteq> CHR '']'') s3
                  in if length body < length s3 \<and> CHR 0x0A \<notin> set body
                     then Some (sign @ digits, body) else None)"

text \<open>
  The local variables \<^verbatim>\<open>I_bit\<close>, \<^verbatim>\<open>rd_bin\<close>, \<^verbatim>\<open>rs1_bin\<close>, \<^verbatim>\<open>immediate_val\<close> and
  \<^verbatim>\<open>assembled_instruction\<close> as they stand when the operand analysis of an
  immediate/register instruction is over (line 205).
\<close>

type_synonym fields = "string \<times> string \<times> string \<times> int option \<times> string option"

definition zeros14 :: string where
  "zeros14 = replicate 14 (CHR ''0'')"

text \<open>Lines 149 to 160: \<^verbatim>\<open>cmp\<close>, \<^verbatim>\<open>cmpu\<close>, \<^verbatim>\<open>cmph\<close>.\<close>

definition operands_cmp :: "string \<Rightarrow> string list \<Rightarrow> py_error + fields" where
  "operands_cmp opcode ops =
     (case ops of
        [] \<Rightarrow> Inl IndexError
      | o0 # rest \<Rightarrow>
          let rs1_bin = reg_get o0 in
          (case rest of
             [] \<Rightarrow> Inr (''1'', ''0000'', rs1_bin, Some 0, None)
           | o1 # _ \<Rightarrow>
               if is_int_literal o1
               then (case py_int o1 of
                       Inl x \<Rightarrow> Inl x
                     | Inr v \<Rightarrow> Inr (''1'', ''0000'', rs1_bin, Some v, None))
               else Inr (''0'', ''0000'', rs1_bin, None,
                         Some (opcode @ ''0'' @ ''0000'' @ rs1_bin @ reg_get o1 @ zeros14))))"

text \<open>Lines 162 to 173: the three-operand arithmetic and logic instructions.\<close>

definition operands_arith :: "string \<Rightarrow> string list \<Rightarrow> py_error + fields" where
  "operands_arith opcode ops =
     (case ops of
        o0 # o1 # rest \<Rightarrow>
          let rd_bin = reg_get o0; rs1_bin = reg_get o1 in
          (case rest of
             [] \<Rightarrow> Inr (''1'', rd_bin, rs1_bin, Some 0, None)
           | o2 # _ \<Rightarrow>
               if is_int_literal o2
               then (case py_int o2 of
                       Inl x \<Rightarrow> Inl x
                     | Inr v \<Rightarrow> Inr (''1'', rd_bin, rs1_bin, Some v, None))
               else Inr (''0'', rd_bin, rs1_bin, None,
                         Some (opcode @ ''0'' @ rd_bin @ rs1_bin @ reg_get o2 @ zeros14)))
      | _ \<Rightarrow> Inl IndexError)"

text \<open>Lines 175 to 185: \<^verbatim>\<open>mov\<close>, \<^verbatim>\<open>not\<close> and their suffixed variants.\<close>

definition operands_mov :: "string \<Rightarrow> string list \<Rightarrow> py_error + fields" where
  "operands_mov opcode ops =
     (case ops of
        [] \<Rightarrow> Inl IndexError
      | o0 # rest \<Rightarrow>
          let rd_bin = reg_get o0 in
          (case rest of
             [] \<Rightarrow> Inr (''1'', rd_bin, ''0000'', Some 0, None)
           | o1 # _ \<Rightarrow>
               if is_int_literal o1
               then (case py_int o1 of
                       Inl x \<Rightarrow> Inl x
                     | Inr v \<Rightarrow> Inr (''1'', rd_bin, ''0000'', Some v, None))
               else Inr (''0'', rd_bin, ''0000'', None,
                         Some (opcode @ ''0'' @ rd_bin @ ''0000'' @ reg_get o1 @ zeros14))))"

text \<open>
  Lines 187 to 204: \<^verbatim>\<open>ld\<close> and \<^verbatim>\<open>st\<close>. The inner \<open>Inl\<close> is the message for a memory
  operand that does not match the pattern.
\<close>

definition operands_mem :: "string list \<Rightarrow> string \<Rightarrow> py_error + (diag + fields)" where
  "operands_mem ops raw =
     (case ops of
        o0 # mem_operand # _ \<Rightarrow>
          let rd_bin = reg_get o0 in
          (case match_mem_operand mem_operand of
             Some (offset_str, rs1_name) \<Rightarrow>
               (case (if offset_str \<noteq> [] then py_int offset_str else Inr 0) of
                  Inl x \<Rightarrow> Inl x
                | Inr v \<Rightarrow> Inr (Inr (''1'', rd_bin, reg_get rs1_name, Some v, None)))
           | None \<Rightarrow> Inr (Inl (InvalidMemoryOperand mem_operand raw)))
      | _ \<Rightarrow> Inl IndexError)"

text \<open>Lines 206 to 217: the immediate form, with the two modifier bits.\<close>

definition finish_immediate :: "string \<Rightarrow> string \<Rightarrow> fields \<Rightarrow> string option" where
  "finish_immediate m opcode f =
     (case f of (I_bit, rd_bin, rs1_bin, immediate_val, assembled_instruction) \<Rightarrow>
        if I_bit = ''1'' \<and> immediate_val \<noteq> None \<and> assembled_instruction = None
        then (let imm_bin = to_binary (the immediate_val) 16 True;
                  imm_field =
                    (if m \<in> set MODIFIER_OPCODES
                     then (if last m = CHR ''u'' then ''01'' @ imm_bin else ''10'' @ imm_bin)
                     else ''00'' @ imm_bin)
              in Some (opcode @ I_bit @ rd_bin @ rs1_bin @ imm_field))
        else assembled_instruction)"

text \<open>The condition of line 143.\<close>

definition imm_reg_class :: "string \<Rightarrow> bool" where
  "imm_reg_class m =
     (m \<in> set [''cmp'', ''sub'', ''add'', ''mul'', ''mov'', ''ld'', ''st'', ''and'', ''or'', ''not'']
      \<or> m \<in> set MODIFIER_OPCODES)"

definition encode_imm_reg :: "string \<Rightarrow> string \<Rightarrow> string list \<Rightarrow> string \<Rightarrow> py_error + gen" where
  "encode_imm_reg m opcode ops raw =
     (let fs =
        (if m \<in> set [''cmp'', ''cmpu'', ''cmph'']
         then map_sum id Inr (operands_cmp opcode ops)
         else if m \<in> set [''sub'', ''add'', ''mul'', ''and'', ''or'',
                           ''subu'', ''addu'', ''mulu'', ''andu'', ''oru'',
                           ''subh'', ''addh'', ''mulh'', ''andh'', ''orh'']
         then map_sum id Inr (operands_arith opcode ops)
         else if m \<in> set [''mov'', ''movu'', ''movh'', ''not'', ''notu'', ''noth'']
         then map_sum id Inr (operands_mov opcode ops)
         else if m \<in> set [''ld'', ''st'']
         then operands_mem ops raw
         else Inr (Inr (''1'', ''0000'', ''0000'', Some 0, None)))
      in case fs of
           Inl x \<Rightarrow> Inl x
         | Inr (Inl d) \<Rightarrow> Inr (Skip d)
         | Inr (Inr f) \<Rightarrow> Inr (Assembled (finish_immediate m opcode f)))"

text \<open>Lines 125 to 140: the branch format.\<close>

definition encode_branch ::
  "label_map \<Rightarrow> int \<Rightarrow> string \<Rightarrow> string \<Rightarrow> string list \<Rightarrow> string \<Rightarrow> py_error + gen" where
  "encode_branch lm current_address m opcode ops raw =
     (if m = ''ret'' then Inr (Assembled (Some (opcode @ to_binary 0 27 False)))
      else case ops of
             [] \<Rightarrow> Inl IndexError
           | target_label # _ \<Rightarrow>
               (case lm target_label of
                  None \<Rightarrow> Inr (Skip (UndefinedLabel target_label raw))
                | Some target_address \<Rightarrow>
                    let pc_next = current_address + 1;
                        offset = target_address - pc_next
                    in Inr (Assembled (Some (opcode @ to_binary offset 27 True)))))"

text \<open>Lines 118 to 228 for an entry whose mnemonic \<open>m\<close> is truthy.\<close>

definition generate :: "label_map \<Rightarrow> int \<Rightarrow> string \<Rightarrow> string list \<Rightarrow> string \<Rightarrow> py_error + gen" where
  "generate lm current_address m ops raw =
     (case OPCODES m of
        None \<Rightarrow> Inr (Skip (UnknownMnemonic m raw))
      | Some opcode \<Rightarrow>
          if m \<in> set [''beq'', ''bgt'', ''b'', ''call'', ''ret'']
          then encode_branch lm current_address m opcode ops raw
          else if imm_reg_class m
          then encode_imm_reg m opcode ops raw
          else if m = ''nop''
          then Inr (Assembled (Some (the (OPCODES ''nop'') @ replicate 27 (CHR ''0''))))
          else if m = ''ret''
          then Inr (Assembled (Some (the (OPCODES ''ret'') @ replicate 27 (CHR ''0''))))
          else Inr (Skip (NotFullyImplemented m raw)))"

text \<open>
  Lines 230 to 236: the width check. A string of another length is reported and
  replaced by thirty-two zeros, which are appended like any other word.
\<close>

definition width_check :: "nat \<Rightarrow> string \<Rightarrow> string option \<Rightarrow> result" where
  "width_check ln raw assembled_instruction =
     (if truthy assembled_instruction
      then (let s = the assembled_instruction in
            if length s \<noteq> 32
            then Appended (Some (LengthNot32 (length s) raw)) ln raw
                   (Some (replicate 32 (CHR ''0'')))
            else Appended None ln raw (Some s))
      else Silent)"

text \<open>
  One iteration of the loop of pass 2: the result, and \<^verbatim>\<open>current_address\<close> after it.
  Every path of the source through a mnemonic-bearing entry has its own increment.
\<close>

definition encode_entry :: "label_map \<Rightarrow> int \<Rightarrow> entry \<Rightarrow> py_error + (result \<times> int)" where
  "encode_entry lm current_address e =
     (if truthy (mnemonic e)
      then (case generate lm current_address (the (mnemonic e)) (operands e) (raw_line e) of
              Inl x \<Rightarrow> Inl x
            | Inr (Skip d) \<Rightarrow> Inr (Continued d, current_address + 1)
            | Inr (Assembled a) \<Rightarrow>
                Inr (width_check (line_num e) (raw_line e) a, current_address + 1))
      else Inr (Appended None (line_num e) (raw_line e) None, current_address))"

fun pass2 :: "label_map \<Rightarrow> int \<Rightarrow> entry list \<Rightarrow> py_error + (result list \<times> int)" where
  "pass2 lm current_address [] = Inr ([], current_address)"
| "pass2 lm current_address (e # es) =
     (case encode_entry lm current_address e of
        Inl x \<Rightarrow> Inl x
      | Inr (r, a) \<Rightarrow>
          (case pass2 lm a es of
             Inl x \<Rightarrow> Inl x
           | Inr (rs, a') \<Rightarrow> Inr (r # rs, a')))"

text \<open>Both passes over \<^verbatim>\<open>processed_lines\<close>; an exception ends the run.\<close>

definition assemble_entries :: "entry list \<Rightarrow> py_error + result list" where
  "assemble_entries es = map_sum id fst (pass2 (pass1 es) 0 es)"

text \<open>The list \<^verbatim>\<open>machine_code\<close> that \<^verbatim>\<open>assemble\<close> returns, and what it printed.\<close>

fun machine_code :: "result list \<Rightarrow> (nat \<times> string \<times> string option) list" where
  "machine_code [] = []"
| "machine_code (Appended d ln raw w # rs) = (ln, raw, w) # machine_code rs"
| "machine_code (_ # rs) = machine_code rs"

fun printed :: "result list \<Rightarrow> diag list" where
  "printed [] = []"
| "printed (Appended (Some d) ln raw w # rs) = d # printed rs"
| "printed (Continued d # rs) = d # printed rs"
| "printed (_ # rs) = printed rs"

subsection \<open>The line parser and the driver\<close>

text \<open>
  Whitespace as \<^verbatim>\<open>str.strip()\<close> and the pattern \<^verbatim>\<open>\s\<close> see it, among the code points
  below 256: tab, line feed, vertical tab, form feed, carriage return, the four
  separators \<^verbatim>\<open>\x1c\<close> to \<^verbatim>\<open>\x1f\<close>, the space, the next-line control \<^verbatim>\<open>\x85\<close> and the
  no-break space \<^verbatim>\<open>\xa0\<close>.
\<close>

definition is_space :: "char \<Rightarrow> bool" where
  "is_space c =
     (c \<in> set [CHR 0x09, CHR 0x0A, CHR 0x0B, CHR 0x0C, CHR 0x0D,
               CHR 0x1C, CHR 0x1D, CHR 0x1E, CHR 0x1F, CHR 0x20, CHR 0x85, CHR 0xA0])"

definition is_lower :: "char \<Rightarrow> bool" where
  "is_lower c = (c \<in> set ''abcdefghijklmnopqrstuvwxyz'')"

definition strip :: "string \<Rightarrow> string" where
  "strip s = rev (dropWhile is_space (rev (dropWhile is_space s)))"

text \<open>\<^verbatim>\<open>s.split(sep)\<close> for a one-character separator; the second argument collects the
  current piece, reversed.\<close>

fun split_acc :: "char \<Rightarrow> string \<Rightarrow> string \<Rightarrow> string list" where
  "split_acc sep acc [] = [rev acc]"
| "split_acc sep acc (c # cs) =
     (if c = sep then rev acc # split_acc sep [] cs else split_acc sep (c # acc) cs)"

definition split :: "char \<Rightarrow> string \<Rightarrow> string list" where
  "split sep s = split_acc sep [] s"

text \<open>
  \<^verbatim>\<open>parse_line(line)\<close>. The pattern \<^verbatim>\<open>([a-z]+)\s*(.*)\<close> is matched at the start of the
  instruction part: the longest run of lower-case letters, the whitespace after it,
  and the rest up to a line feed.
\<close>

definition parse_line :: "string \<Rightarrow> string option \<times> string option \<times> string list option" where
  "parse_line line0 =
     (let line = strip line0 in
      if line = [] \<or> startswith line '';'' then (None, None, None)
      else
        let part0 = strip (takeWhile (\<lambda>c. c \<noteq> CHR '';'') line);
            lab = (if CHR '':'' \<in> set part0
                   then Some (strip (takeWhile (\<lambda>c. c \<noteq> CHR '':'') part0)) else None);
            instruction_part =
                  (if CHR '':'' \<in> set part0
                   then strip (tl (dropWhile (\<lambda>c. c \<noteq> CHR '':'') part0)) else part0)
        in if instruction_part = [] then (lab, None, None)
           else
             let m = takeWhile is_lower instruction_part in
             if m \<noteq> []
             then (let group2 = takeWhile (\<lambda>c. c \<noteq> CHR 0x0A)
                                  (dropWhile is_space (dropWhile is_lower instruction_part));
                       operands_str = strip group2;
                       ops = filter (\<lambda>op. op \<noteq> []) (map strip (split (CHR '','') operands_str))
                   in (lab, Some m, Some ops))
             else (lab, None, None))"

text \<open>
  Lines 89 to 92: the loop over the enumerated lines, which keeps the lines that carry
  a label or a mnemonic, with their index.
\<close>

fun collect_entries :: "nat \<Rightarrow> string list \<Rightarrow> entry list" where
  "collect_entries i [] = []"
| "collect_entries i (line # rest) =
     (case parse_line line of (lab, m, ops) \<Rightarrow>
        (if m \<noteq> None \<or> lab \<noteq> None
         then [\<lparr>line_num = i, label = lab, mnemonic = m,
                operands = (case ops of None \<Rightarrow> [] | Some os \<Rightarrow> os),
                raw_line = line\<rparr>]
         else [])
        @ collect_entries (Suc i) rest)"

definition processed_lines :: "string \<Rightarrow> entry list" where
  "processed_lines assembly_code = collect_entries 0 (split (CHR 0x0A) (strip assembly_code))"

text \<open>
  \<^verbatim>\<open>assemble(assembly_code)\<close>: the results of pass 2, from which \<open>machine_code\<close> takes
  the returned list and \<open>printed\<close> the messages.
\<close>

definition assemble :: "string \<Rightarrow> py_error + result list" where
  "assemble assembly_code = assemble_entries (processed_lines assembly_code)"

subsection \<open>Reading a bit string back\<close>

text \<open>
  The assembler has no decoder. To state what an encoded field denotes, a bit string
  is read as an unsigned binary numeral, and as a two's-complement numeral over its own
  length.
\<close>

definition is_bit_string :: "string \<Rightarrow> bool" where
  "is_bit_string s = list_all (\<lambda>c. c = CHR ''0'' \<or> c = CHR ''1'') s"

definition unsigned_value :: "string \<Rightarrow> int" where
  "unsigned_value s = foldl (\<lambda>a c. 2 * a + (if c = CHR ''1'' then 1 else 0)) 0 s"

definition signed_value :: "string \<Rightarrow> int" where
  "signed_value s =
     (if 2 ^ (length s - 1) \<le> unsigned_value s
      then unsigned_value s - 2 ^ length s else unsigned_value s)"

text \<open>
  The modifier field as the instruction-set description gives it: by the last letter of
  the mnemonic.
\<close>

definition modifier_bits :: "string \<Rightarrow> string" where
  "modifier_bits m =
     (if last m = CHR ''u'' then ''01'' else if last m = CHR ''h'' then ''10'' else ''00'')"

text \<open>The number of instruction-bearing entries of a list.\<close>

definition count_instructions :: "entry list \<Rightarrow> int" where
  "count_instructions es = int (length (filter (\<lambda>e. truthy (mnemonic e)) es))"

subsection \<open>A test program\<close>

text \<open>
  A program of \<open>n + 2\<close> lines: a branch to the label \<^verbatim>\<open>.far\<close>, then \<open>n\<close> lines
  \<^verbatim>\<open>nop\<close>, then the label on a line of its own. It is what \<open>collect_entries\<close>
  makes of that text.
\<close>

definition nop_at :: "nat \<Rightarrow> entry" where
  "nop_at i = \<lparr>line_num = i, label = None, mnemonic = Some ''nop'', operands = [],
              raw_line = ''nop''\<rparr>"

definition long_branch_program :: "nat \<Rightarrow> entry list" where
  "long_branch_program n =
     \<lparr>line_num = 0, label = None, mnemonic = Some ''b'', operands = [''.far''],
      raw_line = ''b .far''\<rparr>
     # map nop_at [1..<Suc n]
     @ [\<lparr>line_num = Suc n, label = Some ''.far'', mnemonic = None, operands = [],
         raw_line = ''.far:''\<rparr>]"

text \<open>
  The invariant of the operand analysis, used in the proofs below: the register fields
  are four characters wide, and either an immediate is pending or the register form has
  been assembled.
\<close>

definition fields_shape :: "string \<Rightarrow> fields \<Rightarrow> bool" where
  "fields_shape opcode f =
     (case f of (I_bit, rd_bin, rs1_bin, immediate_val, assembled_instruction) \<Rightarrow>
        length rd_bin = 4 \<and> length rs1_bin = 4 \<and>
        ((I_bit = ''1'' \<and> immediate_val \<noteq> None \<and> assembled_instruction = None) \<or>
         (I_bit = ''0'' \<and>
          (\<exists>rs2_bin. length rs2_bin = 4 \<and>
             assembled_instruction = Some (opcode @ ''0'' @ rd_bin @ rs1_bin @ rs2_bin @ zeros14)))))"

section \<open>Properties of the codec\<close>

lemma bin_nat_not_Nil: "bin_nat n \<noteq> []"
  by (subst bin_nat.simps) simp

lemma is_bit_string_bin_nat: "is_bit_string (bin_nat n)"
proof (induction n rule: bin_nat.induct)
  case (1 n)
  show ?case
  proof (cases "n < 2")
    case True
    then show ?thesis by (subst bin_nat.simps) (simp add: is_bit_string_def bit_char_def)
  next
    case False
    with 1 show ?thesis by (subst bin_nat.simps) (simp add: is_bit_string_def bit_char_def)
  qed
qed

lemma unsigned_value_snoc:
  "unsigned_value (s @ [c]) = 2 * unsigned_value s + (if c = CHR ''1'' then 1 else 0)"
  by (simp add: unsigned_value_def)

lemma unsigned_value_bin_nat: "unsigned_value (bin_nat n) = int n"
proof (induction n rule: bin_nat.induct)
  case (1 n)
  show ?case
  proof (cases "n < 2")
    case True
    then have "n = 0 \<or> n = 1" by arith
    then show ?thesis by (subst bin_nat.simps) (auto simp: unsigned_value_def bit_char_def)
  next
    case False
    with 1 have "unsigned_value (bin_nat (n div 2)) = int (n div 2)" by simp
    with False show ?thesis
      by (subst bin_nat.simps) (simp add: unsigned_value_snoc bit_char_def, presburger)
  qed
qed

lemma length_bin_nat_le: "0 < w \<Longrightarrow> (length (bin_nat n) \<le> w) = (n < 2 ^ w)"
proof (induction n arbitrary: w rule: bin_nat.induct)
  case (1 n)
  show ?case
  proof (cases "n < 2")
    case True
    have "(2::nat) ^ 1 \<le> 2 ^ w" using 1(2) by (intro power_increasing) simp_all
    with True 1(2) show ?thesis by (subst bin_nat.simps) simp
  next
    case False
    show ?thesis
    proof (cases w)
      case 0
      with 1(2) show ?thesis by simp
    next
      case (Suc k)
      show ?thesis
      proof (cases "k = 0")
        case True
        with Suc False bin_nat_not_Nil [of "n div 2"] show ?thesis
          by (subst bin_nat.simps) (simp add: Suc_le_eq)
      next
        case k: False
        then have "(length (bin_nat (n div 2)) \<le> k) = (n div 2 < 2 ^ k)"
          using 1(1) [OF False, of k] by simp
        moreover have "(n div 2 < 2 ^ k) = (n < 2 ^ Suc k)" by auto
        ultimately show ?thesis using False Suc by (subst bin_nat.simps) simp
      qed
    qed
  qed
qed

lemma unsigned_value_zeros: "unsigned_value (replicate k (CHR ''0'') @ s) = unsigned_value s"
proof -
  have "foldl (\<lambda>a c. 2 * a + (if c = CHR ''1'' then 1 else 0)) (0::int) (replicate k (CHR ''0'')) = 0"
    by (induction k) simp_all
  then show ?thesis by (simp add: unsigned_value_def)
qed

lemma is_bit_string_zeros: "is_bit_string (replicate k (CHR ''0'') @ s) = is_bit_string s"
  by (induction k) (simp_all add: is_bit_string_def)

lemma hd_bin_nat: "hd (bin_nat n) \<noteq> CHR ''+'' \<and> hd (bin_nat n) \<noteq> CHR ''-''"
  using is_bit_string_bin_nat [of n] bin_nat_not_Nil [of n]
  by (cases "bin_nat n") (auto simp: is_bit_string_def)

lemma zfill_bin_nat:
  "zfill w (bin_nat n) = replicate (w - length (bin_nat n)) (CHR ''0'') @ bin_nat n"
  using hd_bin_nat [of n] bin_nat_not_Nil [of n]
  by (cases "bin_nat n") (auto simp: zfill_def)

lemma to_binary_nonneg:
  "0 \<le> v \<Longrightarrow> to_binary v w sg = replicate (w - length (bin_nat (nat v))) (CHR ''0'') @ bin_nat (nat v)"
  by (simp add: to_binary_def bin_def zfill_bin_nat)

lemma to_binary_negative:
  "v < 0 \<Longrightarrow> to_binary v w True = to_binary (2 ^ w + v) w False"
  by (simp add: to_binary_def)

lemma to_binary_in_range:
  assumes "0 < w" "0 \<le> v" "v < 2 ^ w"
  shows "length (to_binary v w sg) = w"
    and "is_bit_string (to_binary v w sg)"
    and "unsigned_value (to_binary v w sg) = v"
proof -
  have "nat v < 2 ^ w" using assms by (simp add: nat_less_iff)
  then have "length (bin_nat (nat v)) \<le> w" using assms(1) by (simp add: length_bin_nat_le)
  then show "length (to_binary v w sg) = w" using assms(2) by (simp add: to_binary_nonneg)
  show "is_bit_string (to_binary v w sg)"
    using assms(2) is_bit_string_bin_nat [of "nat v"]
    by (simp add: to_binary_nonneg is_bit_string_zeros)
  show "unsigned_value (to_binary v w sg) = v"
    using assms(2) by (simp add: to_binary_nonneg unsigned_value_zeros unsigned_value_bin_nat)
qed

lemma to_binary_too_wide:
  assumes "0 < w" "2 ^ w \<le> v"
  shows "w < length (to_binary v w sg)"
proof -
  have v: "0 \<le> v" using assms(2) by (smt (verit) zero_le_power)
  have "\<not> nat v < 2 ^ w" using assms(2) v by (simp add: nat_less_iff)
  then have "\<not> length (bin_nat (nat v)) \<le> w" using assms(1) by (simp add: length_bin_nat_le)
  then show ?thesis using v by (simp add: to_binary_nonneg)
qed

lemma to_binary_signed:
  assumes "0 < w" "- (2 ^ (w - 1)) \<le> v" "v < 2 ^ (w - 1)"
  shows "length (to_binary v w True) = w"
    and "is_bit_string (to_binary v w True)"
    and "signed_value (to_binary v w True) = v"
proof -
  have p: "(2::int) ^ w = 2 * 2 ^ (w - 1)" using assms(1) by (cases w) simp_all
  define u where "u = (if v < 0 then 2 ^ w + v else v)"
  have eq: "to_binary v w True = to_binary u w False"
    by (simp add: to_binary_def u_def)
  have u: "0 \<le> u" "u < 2 ^ w" using assms(2,3) p by (auto simp: u_def)
  show "length (to_binary v w True) = w" using to_binary_in_range(1) [OF assms(1) u] eq by simp
  show "is_bit_string (to_binary v w True)" using to_binary_in_range(2) [OF assms(1) u] eq by simp
  have "unsigned_value (to_binary v w True) = u" using to_binary_in_range(3) [OF assms(1) u] eq by simp
  moreover have "length (to_binary v w True) = w" by fact
  ultimately show "signed_value (to_binary v w True) = v"
    using assms(2,3) p by (auto simp: signed_value_def u_def)
qed

lemma to_binary_signed_wrap:
  assumes "0 < w" "2 ^ (w - 1) \<le> v" "v < 2 ^ w"
  shows "signed_value (to_binary v w True) = v - 2 ^ w"
proof -
  have v: "0 \<le> v" using assms(2) by (smt (verit) zero_le_power)
  from to_binary_in_range [OF assms(1) v assms(3), of True] assms(2)
  show ?thesis by (simp add: signed_value_def)
qed

subsection \<open>Evaluating the codec and the encoder on concrete inputs\<close>

lemma bin_nat_0: "bin_nat 0 = ''0''"
  by (subst bin_nat.simps) (simp add: bit_char_def)
lemma bin_nat_1: "bin_nat 1 = ''1''"
  by (subst bin_nat.simps) (simp add: bit_char_def)
lemma bin_nat_Suc_0: "bin_nat (Suc 0) = ''1''"
  by (subst bin_nat.simps) (simp add: bit_char_def)
lemma bin_nat_Bit0: "bin_nat (numeral (Num.Bit0 k)) = bin_nat (numeral k) @ ''0''"
  by (subst bin_nat.simps) (simp add: bit_char_def numeral_Bit0_div_2)
lemma bin_nat_Bit1: "bin_nat (numeral (Num.Bit1 k)) = bin_nat (numeral k) @ ''1''"
  by (subst bin_nat.simps) (simp add: bit_char_def numeral_Bit1_div_2)
lemma replicate_numeral_Cons: "replicate (numeral k) x = x # replicate (pred_numeral k) x"
  by (simp add: numeral_eq_Suc)
lemmas codec_eval = to_binary_def bin_def zfill_def bin_nat_0 bin_nat_1 bin_nat_Suc_0
  bin_nat_Bit0 bin_nat_Bit1 replicate_numeral_Cons
lemmas entry_eval = encode_entry_def truthy_def generate_def OPCODES_def REGISTERS_def reg_get_def
  imm_reg_class_def MODIFIER_OPCODES_def encode_imm_reg_def encode_branch_def
  operands_cmp_def operands_arith_def operands_mov_def operands_mem_def finish_immediate_def
  is_int_literal_def isdigit_def char_isdigit_def is_digit_def startswith_def py_int_def
  int_max_str_digits_def decimal_def digit_val_def
  match_mem_operand_def width_check_def zeros14_def Let_def

lemmas parse_eval = assemble_def processed_lines_def parse_line_def strip_def split_def
  is_space_def is_lower_def assemble_entries_def pass1_def

section \<open>Properties of pass 1\<close>

lemma pass1_loop_append:
  "pass1_loop (xs @ ys) st = pass1_loop ys (pass1_loop xs st)"
  by (induction xs st rule: pass1_loop.induct) simp_all

lemma count_instructions_Nil: "count_instructions [] = 0"
  by (simp add: count_instructions_def)

lemma count_instructions_Cons:
  "count_instructions (e # es) = (if truthy (mnemonic e) then 1 else 0) + count_instructions es"
  by (simp add: count_instructions_def)

lemma count_instructions_append:
  "count_instructions (xs @ ys) = count_instructions xs + count_instructions ys"
  by (simp add: count_instructions_def)

lemma pass1_loop_counter:
  "snd (pass1_loop es (lm, a)) = a + count_instructions es"
  by (induction es arbitrary: lm a) (simp_all add: count_instructions_Nil count_instructions_Cons)

lemma pass1_loop_other:
  "\<forall>e \<in> set es. label e \<noteq> Some l \<Longrightarrow> fst (pass1_loop es (lm, a)) l = lm l"
proof (induction es arbitrary: lm a)
  case Nil
  then show ?case by simp
next
  case (Cons e es)
  then have "label e \<noteq> Some l" by simp
  then have "truthy (label e) \<Longrightarrow> the (label e) \<noteq> l"
    by (cases "label e") (simp_all add: truthy_def)
  with Cons show ?case by auto
qed

lemma pass1_loop_last_binding:
  assumes "i < length es" "label (es ! i) = Some l" "l \<noteq> []"
    and later: "\<forall>e \<in> set (drop (Suc i) es). label e \<noteq> Some l"
  shows "fst (pass1_loop es (lm, a)) l = Some (a + count_instructions (take i es))"
proof -
  have split: "es = take i es @ es ! i # drop (Suc i) es"
    using assms(1) by (simp add: id_take_nth_drop)
  obtain lm1 a1 where st1: "pass1_loop (take i es) (lm, a) = (lm1, a1)"
    by (cases "pass1_loop (take i es) (lm, a)")
  have a1: "a1 = a + count_instructions (take i es)"
    using pass1_loop_counter [of "take i es" lm a] st1 by simp
  have t: "truthy (label (es ! i))" using assms(2,3) by (simp add: truthy_def)
  have "pass1_loop es (lm, a) = pass1_loop (es ! i # drop (Suc i) es) (lm1, a1)"
    by (subst split) (simp only: pass1_loop_append st1)
  also have "fst \<dots> l = (lm1(l \<mapsto> a1)) l"
    using t assms(2) pass1_loop_other [OF later] by simp
  finally show ?thesis using a1 by simp
qed

lemma pass1_loop_plain:
  "\<forall>e \<in> set es. truthy (mnemonic e) \<and> \<not> truthy (label e) \<Longrightarrow>
   pass1_loop es (lm, a) = (lm, a + int (length es))"
  by (induction es arbitrary: a) simp_all

lemma count_instructions_no_mnemonic:
  "\<forall>e \<in> set es. \<not> truthy (mnemonic e) \<Longrightarrow> count_instructions es = 0"
  by (simp add: count_instructions_def)

lemma count_instructions_take_Suc:
  "i < length es \<Longrightarrow>
   count_instructions (take (Suc i) es) =
   count_instructions (take i es) + (if truthy (mnemonic (es ! i)) then 1 else 0)"
  by (simp add: take_Suc_conv_app_nth count_instructions_append count_instructions_Cons
      count_instructions_Nil)

lemma count_instructions_gap:
  assumes "i \<le> k" "\<forall>e \<in> set (drop i (take k es)). \<not> truthy (mnemonic e)"
  shows "count_instructions (take k es) = count_instructions (take i es)"
proof -
  have "take k es = take i es @ drop i (take k es)"
    using assms(1) by (metis append_take_drop_id min.absorb1 take_take)
  then have "count_instructions (take k es)
             = count_instructions (take i es) + count_instructions (drop i (take k es))"
    by (metis count_instructions_append)
  with count_instructions_no_mnemonic [OF assms(2)] show ?thesis by simp
qed

text \<open>The driver loop: line numbers do not matter to pass 1, and a dropped line leaves no trace.\<close>

lemma collect_entries_append:
  "collect_entries i (xs @ ys) = collect_entries i xs @ collect_entries (i + length xs) ys"
  by (induction xs arbitrary: i) (simp_all split: prod.splits)

lemma pass1_loop_collect_shift:
  "pass1_loop (collect_entries i ls) st = pass1_loop (collect_entries j ls) st"
proof (induction ls arbitrary: i j st)
  case Nil
  then show ?case by simp
next
  case (Cons line ls)
  obtain lm a where st: "st = (lm, a)" by (cases st)
  obtain lab m ops where p: "parse_line line = (lab, m, ops)" by (cases "parse_line line")
  show ?case
    using Cons [of "Suc i" _ "Suc j"]
    by (simp add: p st)
qed

lemma parse_line_blank:
  "strip line = [] \<or> startswith (strip line) '';'' \<Longrightarrow> parse_line line = (None, None, None)"
  by (auto simp: parse_line_def Let_def)

lemma pass1_loop_blank_line:
  assumes "strip b = [] \<or> startswith (strip b) '';''"
  shows "pass1_loop (collect_entries 0 (xs @ b # ys)) st = pass1_loop (collect_entries 0 (xs @ ys)) st"
proof -
  have "collect_entries (length xs) (b # ys) = collect_entries (Suc (length xs)) ys"
    using parse_line_blank [OF assms] by simp
  then have "pass1_loop (collect_entries (length xs) (b # ys)) st' =
             pass1_loop (collect_entries (length xs) ys) st'" for st'
    using pass1_loop_collect_shift [of "Suc (length xs)" ys st' "length xs"] by simp
  then show ?thesis
    by (simp only: collect_entries_append pass1_loop_append add_0)
qed

section \<open>Properties of the encoder\<close>

lemma OPCODES_length: "OPCODES m = Some opc \<Longrightarrow> length opc = 5"
  unfolding OPCODES_def by (drule map_of_SomeD) auto

lemma REGISTERS_length: "REGISTERS t = Some c \<Longrightarrow> length c = 4"
  unfolding REGISTERS_def by (drule map_of_SomeD) auto

lemma reg_get_length: "length (reg_get t) = 4"
  by (cases "REGISTERS t") (simp_all add: reg_get_def REGISTERS_length)


lemma py_int_cases: "py_int s = Inl ValueError \<or> (\<exists>v. py_int s = Inr v)"
  by (simp add: py_int_def Let_def)

lemma code_modifier_all:
  "list_all (\<lambda>m. (if m \<in> set MODIFIER_OPCODES
                    then (if last m = CHR ''u'' then ''01'' else ''10'') else ''00'')
                  = modifier_bits m)
     ([''cmp'', ''sub'', ''add'', ''mul'', ''mov'', ''ld'', ''st'', ''and'', ''or'', ''not'']
      @ MODIFIER_OPCODES)"
  by (simp add: MODIFIER_OPCODES_def modifier_bits_def)

lemma code_modifier:
  assumes "imm_reg_class m"
  shows "(if m \<in> set MODIFIER_OPCODES then (if last m = CHR ''u'' then ''01'' else ''10'') else ''00'')
   = modifier_bits m"
proof -
  have "m \<in> set ([''cmp'', ''sub'', ''add'', ''mul'', ''mov'', ''ld'', ''st'', ''and'', ''or'', ''not'']
      @ MODIFIER_OPCODES)"
    using assms unfolding imm_reg_class_def set_append by blast
  with code_modifier_all show ?thesis unfolding list_all_iff by blast
qed

lemma imm_reg_class_all:
  "list_all (\<lambda>m. OPCODES m \<noteq> None \<and> m \<notin> set [''beq'', ''bgt'', ''b'', ''call'', ''ret''])
     ([''cmp'', ''sub'', ''add'', ''mul'', ''mov'', ''ld'', ''st'', ''and'', ''or'', ''not'']
      @ MODIFIER_OPCODES)"
  by (simp add: MODIFIER_OPCODES_def OPCODES_def)

lemma generate_imm_reg:
  assumes "imm_reg_class m"
  shows "\<exists>opc. OPCODES m = Some opc \<and> length opc = 5 \<and>
           generate lm a m ops raw = encode_imm_reg m opc ops raw"
proof -
  have "m \<in> set ([''cmp'', ''sub'', ''add'', ''mul'', ''mov'', ''ld'', ''st'', ''and'', ''or'', ''not'']
      @ MODIFIER_OPCODES)"
    using assms unfolding imm_reg_class_def set_append by blast
  with imm_reg_class_all
  have "OPCODES m \<noteq> None \<and> m \<notin> set [''beq'', ''bgt'', ''b'', ''call'', ''ret'']"
    unfolding list_all_iff by blast
  then obtain opc where opc: "OPCODES m = Some opc"
    and nb: "m \<notin> set [''beq'', ''bgt'', ''b'', ''call'', ''ret'']" by blast
  have "generate lm a m ops raw = encode_imm_reg m opc ops raw"
    unfolding generate_def using opc nb assms by simp
  with opc OPCODES_length [OF opc] show ?thesis by blast
qed

lemma fields_shape_immediate:
  "length rd = 4 \<Longrightarrow> length rs1 = 4 \<Longrightarrow> fields_shape opc (''1'', rd, rs1, Some v, None)"
  by (simp add: fields_shape_def)

lemma fields_shape_register:
  "length rd = 4 \<Longrightarrow> length rs1 = 4 \<Longrightarrow> length rs2 = 4 \<Longrightarrow>
   fields_shape opc (''0'', rd, rs1, None, Some (opc @ ''0'' @ rd @ rs1 @ rs2 @ zeros14))"
  by (simp add: fields_shape_def)

lemma operands_cmp_shape:
  assumes "operands_cmp opc ops = Inr f"
  shows "fields_shape opc f"
proof (cases ops)
  case Nil
  with assms show ?thesis by (simp add: operands_cmp_def Let_def)
next
  case ops: (Cons o0 rest)
  show ?thesis
  proof (cases rest)
    case Nil
    with assms ops have "f = (''1'', ''0000'', reg_get o0, Some 0, None)"
      by (simp add: operands_cmp_def Let_def)
    then show ?thesis by (simp add: fields_shape_immediate reg_get_length)
  next
    case (Cons o1 r)
    show ?thesis
    proof (cases "is_int_literal o1")
      case True
      have "\<exists>v. py_int o1 = Inr v"
        using assms ops Cons True py_int_cases [of o1] by (auto simp: operands_cmp_def Let_def)
      then obtain v where "py_int o1 = Inr v" by blast
      with assms ops Cons True have "f = (''1'', ''0000'', reg_get o0, Some v, None)"
        by (simp add: operands_cmp_def Let_def)
      then show ?thesis by (simp add: fields_shape_immediate reg_get_length)
    next
      case False
      with assms ops Cons have feq: "f = (''0'', ''0000'', reg_get o0, None,
          Some (opc @ ''0'' @ ''0000'' @ reg_get o0 @ reg_get o1 @ zeros14))"
        by (simp add: operands_cmp_def Let_def)
      show ?thesis unfolding feq
        by (rule fields_shape_register) (simp_all add: reg_get_length)
    qed
  qed
qed

lemma operands_arith_short: "length ops < 2 \<Longrightarrow> operands_arith opc ops = Inl IndexError"
  by (cases ops; cases "tl ops") (simp_all add: operands_arith_def)

lemma operands_arith_shape:
  assumes "operands_arith opc ops = Inr f"
  shows "fields_shape opc f"
proof -
  have "\<not> length ops < 2" using assms operands_arith_short [of ops opc] by auto
  then obtain o0 o1 rest where ops: "ops = o0 # o1 # rest"
    by (cases ops; cases "tl ops") auto
  show ?thesis
  proof (cases rest)
    case Nil
    with assms ops have "f = (''1'', reg_get o0, reg_get o1, Some 0, None)"
      by (simp add: operands_arith_def Let_def)
    then show ?thesis by (simp add: fields_shape_immediate reg_get_length)
  next
    case (Cons o2 r)
    show ?thesis
    proof (cases "is_int_literal o2")
      case True
      have "\<exists>v. py_int o2 = Inr v"
        using assms ops Cons True py_int_cases [of o2] by (auto simp: operands_arith_def Let_def)
      then obtain v where "py_int o2 = Inr v" by blast
      with assms ops Cons True have "f = (''1'', reg_get o0, reg_get o1, Some v, None)"
        by (simp add: operands_arith_def Let_def)
      then show ?thesis by (simp add: fields_shape_immediate reg_get_length)
    next
      case False
      with assms ops Cons have feq: "f = (''0'', reg_get o0, reg_get o1, None,
          Some (opc @ ''0'' @ reg_get o0 @ reg_get o1 @ reg_get o2 @ zeros14))"
        by (simp add: operands_arith_def Let_def)
      show ?thesis unfolding feq
        by (rule fields_shape_register) (simp_all add: reg_get_length)
    qed
  qed
qed

lemma operands_mov_shape:
  assumes "operands_mov opc ops = Inr f"
  shows "fields_shape opc f"
proof (cases ops)
  case Nil
  with assms show ?thesis by (simp add: operands_mov_def Let_def)
next
  case ops: (Cons o0 rest)
  show ?thesis
  proof (cases rest)
    case Nil
    with assms ops have "f = (''1'', reg_get o0, ''0000'', Some 0, None)"
      by (simp add: operands_mov_def Let_def)
    then show ?thesis by (simp add: fields_shape_immediate reg_get_length)
  next
    case (Cons o1 r)
    show ?thesis
    proof (cases "is_int_literal o1")
      case True
      have "\<exists>v. py_int o1 = Inr v"
        using assms ops Cons True py_int_cases [of o1] by (auto simp: operands_mov_def Let_def)
      then obtain v where "py_int o1 = Inr v" by blast
      with assms ops Cons True have "f = (''1'', reg_get o0, ''0000'', Some v, None)"
        by (simp add: operands_mov_def Let_def)
      then show ?thesis by (simp add: fields_shape_immediate reg_get_length)
    next
      case False
      with assms ops Cons have feq: "f = (''0'', reg_get o0, ''0000'', None,
          Some (opc @ ''0'' @ reg_get o0 @ ''0000'' @ reg_get o1 @ zeros14))"
        by (simp add: operands_mov_def Let_def)
      show ?thesis unfolding feq
        by (rule fields_shape_register) (simp_all add: reg_get_length)
    qed
  qed
qed

lemma operands_mem_short: "length ops < 2 \<Longrightarrow> operands_mem ops raw = Inl IndexError"
  by (cases ops; cases "tl ops") (simp_all add: operands_mem_def)

lemma operands_mem_shape:
  assumes "operands_mem ops raw = Inr (Inr f)"
  shows "fields_shape opc f"
proof -
  have "\<not> length ops < 2" using assms operands_mem_short [of ops raw] by auto
  then obtain o0 mem rest where ops: "ops = o0 # mem # rest"
    by (cases ops; cases "tl ops") auto
  show ?thesis
  proof (cases "match_mem_operand mem")
    case None
    with assms ops show ?thesis by (simp add: operands_mem_def Let_def)
  next
    case (Some p)
    obtain off base where p: "p = (off, base)" by (cases p)
    show ?thesis
    proof (cases "if off \<noteq> [] then py_int off else Inr 0")
      case (Inl x)
      with assms ops Some p show ?thesis by (simp add: operands_mem_def Let_def)
    next
      case (Inr v)
      with assms ops Some p have "f = (''1'', reg_get o0, reg_get base, Some v, None)"
        by (simp add: operands_mem_def Let_def)
      then show ?thesis by (simp add: fields_shape_immediate reg_get_length)
    qed
  qed
qed

lemma encode_imm_reg_fields:
  assumes "encode_imm_reg m opc ops raw = Inr (Assembled x)"
  shows "\<exists>f. fields_shape opc f \<and> x = finish_immediate m opc f"
proof -
  define c1 where "c1 = (m \<in> set [''cmp'', ''cmpu'', ''cmph''])"
  define c2 where "c2 = (m \<in> set [''sub'', ''add'', ''mul'', ''and'', ''or'',
                           ''subu'', ''addu'', ''mulu'', ''andu'', ''oru'',
                           ''subh'', ''addh'', ''mulh'', ''andh'', ''orh''])"
  define c3 where "c3 = (m \<in> set [''mov'', ''movu'', ''movh'', ''not'', ''notu'', ''noth''])"
  define c4 where "c4 = (m \<in> set [''ld'', ''st''])"
  define fs where "fs =
        (if c1 then map_sum id Inr (operands_cmp opc ops)
         else if c2 then map_sum id Inr (operands_arith opc ops)
         else if c3 then map_sum id Inr (operands_mov opc ops)
         else if c4 then operands_mem ops raw
         else Inr (Inr (''1'', ''0000'', ''0000'', Some 0, None)))"
  have e: "encode_imm_reg m opc ops raw =
           (case fs of Inl x \<Rightarrow> Inl x | Inr (Inl d) \<Rightarrow> Inr (Skip d)
            | Inr (Inr f) \<Rightarrow> Inr (Assembled (finish_immediate m opc f)))"
    unfolding encode_imm_reg_def fs_def c1_def c2_def c3_def c4_def Let_def ..
  from assms e obtain f where f: "fs = Inr (Inr f)" and x: "x = finish_immediate m opc f"
    by (auto split: sum.splits)
  have "fields_shape opc f"
  proof (cases c1)
    case True
    with f have "map_sum id Inr (operands_cmp opc ops) = (Inr (Inr f) :: py_error + diag + fields)" by (simp add: fs_def)
    then have "operands_cmp opc ops = Inr f" by (cases "operands_cmp opc ops") simp_all
    then show ?thesis by (rule operands_cmp_shape)
  next
    case n1: False
    show ?thesis
    proof (cases c2)
      case True
      with f n1 have "map_sum id Inr (operands_arith opc ops) = (Inr (Inr f) :: py_error + diag + fields)"
        by (simp add: fs_def)
      then have "operands_arith opc ops = Inr f" by (cases "operands_arith opc ops") simp_all
      then show ?thesis by (rule operands_arith_shape)
    next
      case n2: False
      show ?thesis
      proof (cases c3)
        case True
        with f n1 n2 have "map_sum id Inr (operands_mov opc ops) = (Inr (Inr f) :: py_error + diag + fields)"
          by (simp add: fs_def)
        then have "operands_mov opc ops = Inr f" by (cases "operands_mov opc ops") simp_all
        then show ?thesis by (rule operands_mov_shape)
      next
        case n3: False
        show ?thesis
        proof (cases c4)
          case True
          with f n1 n2 n3 have "operands_mem ops raw = Inr (Inr f)" by (simp add: fs_def)
          then show ?thesis by (rule operands_mem_shape)
        next
          case False
          with f n1 n2 n3 have "f = (''1'', ''0000'', ''0000'', Some 0, None)"
            by (simp add: fs_def)
          then show ?thesis by (simp add: fields_shape_immediate)
        qed
      qed
    qed
  qed
  with x show ?thesis by blast
qed

lemma finish_immediate_shape:
  assumes "fields_shape opc f"
  shows "\<exists>rd rs1. length rd = 4 \<and> length rs1 = 4 \<and>
           ((\<exists>v. finish_immediate m opc f =
                   Some (opc @ ''1'' @ rd @ rs1
                         @ (if m \<in> set MODIFIER_OPCODES
                            then (if last m = CHR ''u'' then ''01'' else ''10'') else ''00'')
                         @ to_binary v 16 True)) \<or>
            (\<exists>rs2. length rs2 = 4 \<and>
                   finish_immediate m opc f = Some (opc @ ''0'' @ rd @ rs1 @ rs2 @ zeros14)))"
proof -
  obtain I rd rs1 imm asm where f: "f = (I, rd, rs1, imm, asm)" by (cases f)
  from assms f have len: "length rd = 4" "length rs1 = 4"
    and c: "(I = ''1'' \<and> imm \<noteq> None \<and> asm = None) \<or>
         (I = ''0'' \<and> (\<exists>rs2. length rs2 = 4 \<and> asm = Some (opc @ ''0'' @ rd @ rs1 @ rs2 @ zeros14)))"
    by (simp_all add: fields_shape_def)
  from c show ?thesis
  proof
    assume a: "I = ''1'' \<and> imm \<noteq> None \<and> asm = None"
    then have "finish_immediate m opc f =
                   Some (opc @ ''1'' @ rd @ rs1
                         @ (if m \<in> set MODIFIER_OPCODES
                            then (if last m = CHR ''u'' then ''01'' else ''10'') else ''00'')
                         @ to_binary (the imm) 16 True)"
      by (simp add: f finish_immediate_def)
    with len show ?thesis by blast
  next
    assume a: "I = ''0'' \<and> (\<exists>rs2. length rs2 = 4 \<and> asm = Some (opc @ ''0'' @ rd @ rs1 @ rs2 @ zeros14))"
    then obtain rs2 where r: "length rs2 = 4" "asm = Some (opc @ ''0'' @ rd @ rs1 @ rs2 @ zeros14)"
      by blast
    with a have "finish_immediate m opc f = Some (opc @ ''0'' @ rd @ rs1 @ rs2 @ zeros14)"
      by (simp add: f finish_immediate_def)
    with len r(1) show ?thesis by blast
  qed
qed

lemma encode_imm_reg_shape:
  assumes "encode_imm_reg m opc ops raw = Inr (Assembled x)"
  shows "\<exists>rd rs1. length rd = 4 \<and> length rs1 = 4 \<and>
           ((\<exists>v. x = Some (opc @ ''1'' @ rd @ rs1
                         @ (if m \<in> set MODIFIER_OPCODES
                            then (if last m = CHR ''u'' then ''01'' else ''10'') else ''00'')
                         @ to_binary v 16 True)) \<or>
            (\<exists>rs2. length rs2 = 4 \<and> x = Some (opc @ ''0'' @ rd @ rs1 @ rs2 @ zeros14)))"
proof -
  from encode_imm_reg_fields [OF assms] obtain f
    where "fields_shape opc f" "x = finish_immediate m opc f" by blast
  with finish_immediate_shape [of opc f m] show ?thesis by simp
qed

lemma encode_branch_assembled:
  assumes "encode_branch lm a m opc ops raw = Inr (Assembled x)" "length opc = 5"
  shows "\<exists>s. x = Some s \<and> s \<noteq> []"
proof -
  have ne: "opc @ t \<noteq> []" for t using assms(2) by auto
  show ?thesis
  proof (cases "m = ''ret''")
    case True
    with assms(1) have "x = Some (opc @ to_binary 0 27 False)" by (simp add: encode_branch_def)
    with ne show ?thesis by simp
  next
    case nr: False
    show ?thesis
    proof (cases ops)
      case Nil
      with assms(1) nr show ?thesis by (simp add: encode_branch_def)
    next
      case (Cons t r)
      show ?thesis
      proof (cases "lm t")
        case None
        with assms(1) nr Cons show ?thesis by (simp add: encode_branch_def)
      next
        case (Some ta)
        with assms(1) nr Cons have "x = Some (opc @ to_binary (ta - (a + 1)) 27 True)"
          by (simp add: encode_branch_def Let_def)
        with ne show ?thesis by simp
      qed
    qed
  qed
qed

lemma generate_assembled:
  assumes "generate lm a m ops raw = Inr (Assembled x)"
  shows "\<exists>s. x = Some s \<and> s \<noteq> []"
proof (cases "OPCODES m")
  case None
  with assms show ?thesis by (simp add: generate_def)
next
  case (Some opc)
  note len = OPCODES_length [OF Some]
  show ?thesis
  proof (cases "m \<in> set [''beq'', ''bgt'', ''b'', ''call'', ''ret'']")
    case True
    with assms Some have "encode_branch lm a m opc ops raw = Inr (Assembled x)"
      by (simp add: generate_def)
    then show ?thesis using len by (rule encode_branch_assembled)
  next
    case nb: False
    show ?thesis
    proof (cases "imm_reg_class m")
      case True
      with assms Some nb have "encode_imm_reg m opc ops raw = Inr (Assembled x)"
        by (simp add: generate_def)
      from encode_imm_reg_shape [OF this] len show ?thesis by auto
    next
      case False
      have "generate lm a m ops raw =
          (if m = ''nop''
           then Inr (Assembled (Some (the (OPCODES ''nop'') @ replicate 27 (CHR ''0''))))
           else if m = ''ret''
           then Inr (Assembled (Some (the (OPCODES ''ret'') @ replicate 27 (CHR ''0''))))
           else Inr (Skip (NotFullyImplemented m raw)))"
        unfolding generate_def using Some nb False by (simp only: option.case if_False)
      with assms have g: "Inr (Assembled x) =
          (if m = ''nop''
           then Inr (Assembled (Some (the (OPCODES ''nop'') @ replicate 27 (CHR ''0''))))
           else if m = ''ret''
           then Inr (Assembled (Some (the (OPCODES ''ret'') @ replicate 27 (CHR ''0''))))
           else (Inr (Skip (NotFullyImplemented m raw)) :: py_error + gen))"
        by simp
      show ?thesis
      proof (cases "m = ''nop''")
        case True
        with g have "x = Some (the (OPCODES ''nop'') @ replicate 27 (CHR ''0''))"
          by simp
        then show ?thesis by simp
      next
        case n1: False
        show ?thesis
        proof (cases "m = ''ret''")
          case True
          with g n1 have "x = Some (the (OPCODES ''ret'') @ replicate 27 (CHR ''0''))"
            by simp
          then show ?thesis by simp
        next
          case False
          with g n1 have "Inr (Assembled x) = (Inr (Skip (NotFullyImplemented m raw)) :: py_error + gen)"
            by (simp only: if_False)
          then show ?thesis by simp
        qed
      qed
    qed
  qed
qed

section \<open>Properties of pass 2\<close>

lemma encode_entry_step:
  assumes "encode_entry lm a e = Inr (r, a')"
  shows "a' = a + (if truthy (mnemonic e) then 1 else 0) \<and> r \<noteq> Silent"
proof (cases "truthy (mnemonic e)")
  case False
  with assms show ?thesis by (auto simp: encode_entry_def)
next
  case True
  show ?thesis
  proof (cases "generate lm a (the (mnemonic e)) (operands e) (raw_line e)")
    case (Inl x)
    with assms True show ?thesis by (simp add: encode_entry_def)
  next
    case (Inr g)
    show ?thesis
    proof (cases g)
      case (Skip d)
      with assms True Inr show ?thesis by (auto simp: encode_entry_def)
    next
      case (Assembled x)
      with Inr generate_assembled obtain s where "x = Some s" "s \<noteq> []" by blast
      with assms True Inr Assembled show ?thesis
        by (auto simp: encode_entry_def width_check_def truthy_def Let_def split: if_splits)
    qed
  qed
qed

lemma pass2_results:
  "pass2 lm a es = Inr (rs, a') \<Longrightarrow>
   length rs = length es \<and> a' = a + count_instructions es \<and> Silent \<notin> set rs"
proof (induction es arbitrary: a rs a')
  case Nil
  then show ?case by (simp add: count_instructions_Nil)
next
  case (Cons e es)
  from Cons.prems obtain r a1 rs1 where
    s: "encode_entry lm a e = Inr (r, a1)" and p: "pass2 lm a1 es = Inr (rs1, a')" and rs: "rs = r # rs1"
    by (auto split: sum.splits)
  from encode_entry_step [OF s] Cons.IH [OF p] rs show ?case
    by (auto simp: count_instructions_Cons)
qed

lemma pass2_nth:
  "pass2 lm a es = Inr (rs, a') \<Longrightarrow> i < length es \<Longrightarrow>
   encode_entry lm (a + count_instructions (take i es)) (es ! i)
     = Inr (rs ! i, a + count_instructions (take (Suc i) es))"
proof (induction es arbitrary: a rs a' i)
  case Nil
  then show ?case by simp
next
  case (Cons e es)
  from Cons.prems(1) obtain r a1 rs1 where
    s: "encode_entry lm a e = Inr (r, a1)" and p: "pass2 lm a1 es = Inr (rs1, a')" and rs: "rs = r # rs1"
    by (auto split: sum.splits)
  note a1 = encode_entry_step [OF s]
  show ?case
  proof (cases i)
    case 0
    with s a1 rs show ?thesis by (simp add: count_instructions_Nil count_instructions_Cons)
  next
    case (Suc k)
    with Cons.prems(2) have k: "k < length es" by simp
    from Cons.IH [OF p k] a1 Suc rs show ?thesis
      by (simp add: count_instructions_Cons add.assoc)
  qed
qed

lemma width_check_word:
  "width_check ln raw x = Appended d ln' raw' (Some w) \<Longrightarrow> length w = 32"
  by (auto simp: width_check_def Let_def split: if_splits)

lemma encode_entry_word:
  "encode_entry lm a e = Inr (Appended d ln raw (Some w), a') \<Longrightarrow> length w = 32"
  by (auto simp: encode_entry_def split: if_splits sum.splits gen.splits dest: width_check_word)

lemma pass2_words:
  "pass2 lm a es = Inr (rs, a') \<Longrightarrow> (ln, raw, Some w) \<in> set (machine_code rs) \<Longrightarrow> length w = 32"
proof (induction es arbitrary: a rs a')
  case Nil
  then show ?case by simp
next
  case (Cons e es)
  from Cons.prems(1) obtain r a1 rs1 where
    s: "encode_entry lm a e = Inr (r, a1)" and p: "pass2 lm a1 es = Inr (rs1, a')" and rs: "rs = r # rs1"
    by (auto split: sum.splits)
  show ?case
  proof (cases "(ln, raw, Some w) \<in> set (machine_code rs1)")
    case True
    with Cons.IH [OF p] show ?thesis .
  next
    case False
    with Cons.prems(2) rs obtain d where "r = Appended d ln raw (Some w)"
      by (cases r) auto
    with s encode_entry_word show ?thesis by blast
  qed
qed

lemma encode_entry_generated:
  assumes "mnemonic e = Some m" "m \<noteq> []"
    and "generate lm a m (operands e) (raw_line e) = Inr (Assembled (Some s))"
  shows "encode_entry lm a e =
        Inr (if length s = 32
             then Appended None (line_num e) (raw_line e) (Some s)
             else Appended (Some (LengthNot32 (length s) (raw_line e))) (line_num e) (raw_line e)
                    (Some (replicate 32 (CHR ''0''))),
             a + 1)"
proof -
  from generate_assembled [OF assms(3)] have "s \<noteq> []" by simp
  with assms show ?thesis by (simp add: encode_entry_def truthy_def width_check_def)
qed

lemma encode_entry_word_generated:
  assumes "mnemonic e = Some m"
    and "encode_entry lm a e = Inr (Appended None ln raw (Some w), a')"
  shows "generate lm a m (operands e) (raw_line e) = Inr (Assembled (Some w)) \<and> length w = 32"
proof -
  have t: "truthy (mnemonic e)"
    using assms by (auto simp: encode_entry_def split: if_splits)
  with assms(1) have m: "m \<noteq> []" by (simp add: truthy_def)
  from assms t obtain g where g: "generate lm a m (operands e) (raw_line e) = Inr g"
    by (cases "generate lm a m (operands e) (raw_line e)") (simp_all add: encode_entry_def)
  show ?thesis
  proof (cases g)
    case (Skip d)
    with assms t g show ?thesis by (simp add: encode_entry_def)
  next
    case (Assembled x)
    with g generate_assembled obtain s where s: "x = Some s" "s \<noteq> []" by blast
    with g Assembled have gs: "generate lm a m (operands e) (raw_line e) = Inr (Assembled (Some s))"
      by simp
    from encode_entry_generated [OF assms(1) m gs] assms(2)
    have "length s = 32 \<and> w = s" by (auto split: if_splits)
    with gs show ?thesis by simp
  qed
qed

section \<open>The register fields of the immediate/register class\<close>


















section \<open>The branch format\<close>

lemma branch_class_all:
  "list_all (\<lambda>m. OPCODES m \<noteq> None \<and> m \<noteq> ''ret'') [''beq'', ''bgt'', ''b'', ''call'']"
  by (simp add: OPCODES_def)

lemma generate_branch:
  assumes "m \<in> set [''beq'', ''bgt'', ''b'', ''call'']" "lm t = Some target"
  shows "generate lm a m (t # rest) raw
         = Inr (Assembled (Some (the (OPCODES m) @ to_binary (target - (a + 1)) 27 True)))"
proof -
  from assms(1) branch_class_all have "OPCODES m \<noteq> None \<and> m \<noteq> ''ret''"
    unfolding list_all_iff by blast
  then obtain opc where opc: "OPCODES m = Some opc" and nr: "m \<noteq> ''ret''" by blast
  have b: "m \<in> set [''beq'', ''bgt'', ''b'', ''call'', ''ret'']" using assms(1) by auto
  have "generate lm a m (t # rest) raw = encode_branch lm a m opc (t # rest) raw"
    unfolding generate_def using opc b by (simp only: option.case if_True)
  also have "\<dots> = Inr (Assembled (Some (opc @ to_binary (target - (a + 1)) 27 True)))"
    using nr assms(2) by (simp add: encode_branch_def)
  finally show ?thesis using opc by simp
qed

section \<open>The test program\<close>

lemma pass2_append:
  "pass2 lm a (xs @ ys) =
     (case pass2 lm a xs of
        Inl x \<Rightarrow> Inl x
      | Inr (rs, a1) \<Rightarrow>
          (case pass2 lm a1 ys of Inl x \<Rightarrow> Inl x | Inr (rs2, a2) \<Rightarrow> Inr (rs @ rs2, a2)))"
  by (induction xs arbitrary: a) (auto split: sum.splits)

lemma encode_entry_nop:
  "encode_entry lm a (nop_at i)
     = Inr (Appended None i ''nop'' (Some ''01101000000000000000000000000000''), a + 1)"
  by (simp add: nop_at_def entry_eval codec_eval)

lemma pass2_nops:
  "pass2 lm a (map nop_at ns)
     = Inr (map (\<lambda>i. Appended None i ''nop'' (Some ''01101000000000000000000000000000'')) ns,
            a + int (length ns))"
  by (induction ns arbitrary: a) (simp_all add: encode_entry_nop)

lemma pass1_long_branch_program:
  "pass1 (long_branch_program n) = [''.far'' \<mapsto> int n + 1]"
proof -
  have nops: "\<forall>e \<in> set (map nop_at [1..<Suc n]). truthy (mnemonic e) \<and> \<not> truthy (label e)"
    by (simp add: nop_at_def truthy_def)
  have "pass1_loop (long_branch_program n) (Map.empty, 0)
        = pass1_loop [\<lparr>line_num = Suc n, label = Some ''.far'', mnemonic = None, operands = [],
                       raw_line = ''.far:''\<rparr>]
            (pass1_loop (map nop_at [1..<Suc n]) (Map.empty, 1))"
    unfolding long_branch_program_def by (simp add: pass1_loop_append truthy_def)
  also have "pass1_loop (map nop_at [1..<Suc n]) (Map.empty, 1) = (Map.empty, 1 + int n)"
    using pass1_loop_plain [OF nops, of Map.empty 1] by simp
  finally show ?thesis by (simp add: pass1_def truthy_def add.commute)
qed

lemma assemble_long_branch_program:
  "assemble_entries (long_branch_program n)
     = Inr (width_check 0 ''b .far'' (Some (''10010'' @ to_binary (int n) 27 True))
            # map (\<lambda>i. Appended None i ''nop'' (Some ''01101000000000000000000000000000''))
                [1..<Suc n]
            @ [Appended None (Suc n) ''.far:'' None])"
proof -
  let ?lm = "[''.far'' \<mapsto> int n + 1]"
  have first: "encode_entry ?lm 0 \<lparr>line_num = 0, label = None, mnemonic = Some ''b'',
        operands = [''.far''], raw_line = ''b .far''\<rparr>
      = Inr (width_check 0 ''b .far'' (Some (''10010'' @ to_binary (int n) 27 True)), 1)"
    by (simp add: encode_entry_def truthy_def generate_def OPCODES_def encode_branch_def)
  have last: "pass2 ?lm a [\<lparr>line_num = Suc n, label = Some ''.far'', mnemonic = None,
        operands = [], raw_line = ''.far:''\<rparr>] = Inr ([Appended None (Suc n) ''.far:'' None], a)" for a
    by (simp add: encode_entry_def truthy_def)
  have mid: "pass2 ?lm 1 (map nop_at [1..<Suc n]
        @ [\<lparr>line_num = Suc n, label = Some ''.far'', mnemonic = None,
            operands = [], raw_line = ''.far:''\<rparr>])
     = Inr (map (\<lambda>i. Appended None i ''nop'' (Some ''01101000000000000000000000000000''))
                [1..<Suc n]
            @ [Appended None (Suc n) ''.far:'' None], 1 + int n)"
    by (simp only: pass2_append pass2_nops last sum.case prod.case length_map length_upt)
      (simp del: upt_Suc)
  have "pass2 ?lm 0 (long_branch_program n)
     = Inr (width_check 0 ''b .far'' (Some (''10010'' @ to_binary (int n) 27 True))
            # map (\<lambda>i. Appended None i ''nop'' (Some ''01101000000000000000000000000000''))
                [1..<Suc n]
            @ [Appended None (Suc n) ''.far:'' None], 1 + int n)"
    unfolding long_branch_program_def
    by (simp only: pass2.simps first mid sum.case prod.case)
  then show ?thesis by (simp add: assemble_entries_def pass1_long_branch_program)
qed

text \<open>The test program is what the driver makes of its source text.\<close>

lemma parse_line_nop: "parse_line ''nop'' = (None, Some ''nop'', Some [])"
  by (simp add: parse_line_def strip_def split_def is_space_def is_lower_def startswith_def)

lemma collect_entries_nops:
  "collect_entries i (replicate n ''nop'' @ rest)
     = map nop_at [i..<i + n] @ collect_entries (i + n) rest"
proof (induction n arbitrary: i)
  case 0
  then show ?case by simp
next
  case (Suc n)
  have "[i..<i + Suc n] = i # [Suc i..<Suc i + n]" by (simp add: upt_conv_Cons)
  with Suc [of "Suc i"] show ?case by (simp add: parse_line_nop nop_at_def del: upt_Suc)
qed

lemma collect_entries_long_branch_program:
  "collect_entries 0 (''b .far'' # replicate n ''nop'' @ [''.far:'']) = long_branch_program n"
proof -
  have b: "parse_line ''b .far'' = (None, Some ''b'', Some [''.far''])"
    by (simp add: parse_line_def strip_def split_def is_space_def is_lower_def startswith_def)
  have f: "parse_line ''.far:'' = (Some ''.far'', None, None)"
    by (simp add: parse_line_def strip_def split_def is_space_def is_lower_def startswith_def)
  have c: "collect_entries (Suc 0) (replicate n ''nop'' @ [''.far:''])
           = map nop_at [1..<Suc n] @ collect_entries (Suc n) [''.far:'']"
    using collect_entries_nops [of "Suc 0" n "[''.far:'']"] by (simp del: upt_Suc)
  show ?thesis
    unfolding long_branch_program_def
    by (simp add: b f c del: upt_Suc)
qed

section \<open>The characters of the generated strings\<close>

text \<open>
  The opcodes and the register codes are strings of binary digits, and so is what the
  codec returns for a value that is not below \<open>-2^bits\<close>. A generated string is
  then a string of binary digits when the immediate, or the branch offset, is not
  below that bound.
\<close>


lemma is_bit_string_append: "is_bit_string (a @ b) = (is_bit_string a \<and> is_bit_string b)"
  by (simp add: is_bit_string_def)

lemma OPCODES_bits: "OPCODES m = Some opc \<Longrightarrow> is_bit_string opc"
  unfolding OPCODES_def is_bit_string_def by (drule map_of_SomeD) auto

lemma REGISTERS_bits: "REGISTERS t = Some c \<Longrightarrow> is_bit_string c"
  unfolding REGISTERS_def is_bit_string_def by (drule map_of_SomeD) auto

lemma is_bit_string_Cons:
  "is_bit_string (c # s) = ((c = CHR ''0'' \<or> c = CHR ''1'') \<and> is_bit_string s)"
  by (simp add: is_bit_string_def)

lemma is_bit_string_Nil: "is_bit_string []"
  by (simp add: is_bit_string_def)

lemma is_bit_string_replicate: "is_bit_string (replicate n (CHR ''0''))"
  using is_bit_string_zeros [of n "[]"] by (simp add: is_bit_string_Nil)

lemma reg_get_bits: "is_bit_string (reg_get t)"
proof (cases "REGISTERS t")
  case None
  then show ?thesis by (simp add: reg_get_def is_bit_string_Cons is_bit_string_Nil)
next
  case (Some c)
  then show ?thesis by (simp add: reg_get_def REGISTERS_bits)
qed

lemmas bits_simps = is_bit_string_append is_bit_string_Cons is_bit_string_Nil
  is_bit_string_replicate reg_get_bits

lemma to_binary_bits:
  assumes "- (2 ^ w) \<le> v"
  shows "is_bit_string (to_binary v w True)"
proof (cases "v < 0")
  case True
  with assms have "0 \<le> 2 ^ w + v" by simp
  then have "is_bit_string (to_binary (2 ^ w + v) w False)"
    using is_bit_string_bin_nat [of "nat (2 ^ w + v)"]
    by (simp add: to_binary_nonneg is_bit_string_zeros)
  with True show ?thesis by (simp add: to_binary_negative)
next
  case False
  then show ?thesis
    using is_bit_string_bin_nat [of "nat v"] by (simp add: to_binary_nonneg is_bit_string_zeros)
qed

lemma to_binary_zero_bits: "is_bit_string (to_binary 0 w sg)"
  using is_bit_string_bin_nat [of 0] by (simp add: to_binary_nonneg is_bit_string_zeros)

lemma operands_cmp_bits:
  assumes "operands_cmp opc ops = Inr (I, rd, rs1, imm, asm)" "is_bit_string opc"
  shows "is_bit_string rd \<and> is_bit_string rs1 \<and> (\<forall>s. asm = Some s \<longrightarrow> is_bit_string s)
         \<and> (\<forall>v. imm = Some v \<longrightarrow>
               v = 0 \<or> (\<exists>x z rest. ops = x # z # rest \<and> py_int z = Inr v))"
proof -
  have b0: "is_bit_string zeros14"
    by (simp add: zeros14_def is_bit_string_replicate)
  note bits = assms(2) b0 bits_simps
  show ?thesis
  proof (cases ops)
    case Nil
    with assms show ?thesis by (simp add: operands_cmp_def)
  next
    case ops: (Cons o0 rest)
    show ?thesis
    proof (cases rest)
      case Nil
      with assms ops show ?thesis by (auto simp: operands_cmp_def Let_def bits)
    next
      case (Cons o1 r)
      show ?thesis
      proof (cases "is_int_literal o1")
        case True
        with assms ops Cons py_int_cases [of o1] show ?thesis
          by (auto simp: operands_cmp_def Let_def bits)
      next
        case False
        with assms ops Cons show ?thesis by (auto simp: operands_cmp_def Let_def bits)
      qed
    qed
  qed
qed

lemma operands_mov_bits:
  assumes "operands_mov opc ops = Inr (I, rd, rs1, imm, asm)" "is_bit_string opc"
  shows "is_bit_string rd \<and> is_bit_string rs1 \<and> (\<forall>s. asm = Some s \<longrightarrow> is_bit_string s)
         \<and> (\<forall>v. imm = Some v \<longrightarrow>
               v = 0 \<or> (\<exists>x z rest. ops = x # z # rest \<and> py_int z = Inr v))"
proof -
  have b0: "is_bit_string zeros14"
    by (simp add: zeros14_def is_bit_string_replicate)
  note bits = assms(2) b0 bits_simps
  show ?thesis
  proof (cases ops)
    case Nil
    with assms show ?thesis by (simp add: operands_mov_def)
  next
    case ops: (Cons o0 rest)
    show ?thesis
    proof (cases rest)
      case Nil
      with assms ops show ?thesis by (auto simp: operands_mov_def Let_def bits)
    next
      case (Cons o1 r)
      show ?thesis
      proof (cases "is_int_literal o1")
        case True
        with assms ops Cons py_int_cases [of o1] show ?thesis
          by (auto simp: operands_mov_def Let_def bits)
      next
        case False
        with assms ops Cons show ?thesis by (auto simp: operands_mov_def Let_def bits)
      qed
    qed
  qed
qed

lemma operands_arith_bits:
  assumes "operands_arith opc ops = Inr (I, rd, rs1, imm, asm)" "is_bit_string opc"
  shows "is_bit_string rd \<and> is_bit_string rs1 \<and> (\<forall>s. asm = Some s \<longrightarrow> is_bit_string s)
         \<and> (\<forall>v. imm = Some v \<longrightarrow>
               v = 0 \<or> (\<exists>x y z rest. ops = x # y # z # rest \<and> py_int z = Inr v))"
proof -
  have b0: "is_bit_string zeros14"
    by (simp add: zeros14_def is_bit_string_replicate)
  note bits = assms(2) b0 bits_simps
  have "\<not> length ops < 2" using assms(1) operands_arith_short [of ops opc] by auto
  then obtain o0 o1 rest where ops: "ops = o0 # o1 # rest"
    by (cases ops; cases "tl ops") auto
  show ?thesis
  proof (cases rest)
    case Nil
    with assms ops show ?thesis by (auto simp: operands_arith_def Let_def bits)
  next
    case (Cons o2 r)
    show ?thesis
    proof (cases "is_int_literal o2")
      case True
      with assms ops Cons py_int_cases [of o2] show ?thesis
        by (auto simp: operands_arith_def Let_def bits)
    next
      case False
      with assms ops Cons show ?thesis by (auto simp: operands_arith_def Let_def bits)
    qed
  qed
qed

lemma operands_mem_bits:
  assumes "operands_mem ops raw = Inr (Inr (I, rd, rs1, imm, asm))"
  shows "is_bit_string rd \<and> is_bit_string rs1 \<and> asm = None
         \<and> (\<forall>v. imm = Some v \<longrightarrow>
               v = 0 \<or> (\<exists>x mem rest off base. ops = x # mem # rest
                          \<and> match_mem_operand mem = Some (off, base) \<and> py_int off = Inr v))"
proof -
  have "\<not> length ops < 2" using assms operands_mem_short [of ops raw] by auto
  then obtain o0 mem rest where ops: "ops = o0 # mem # rest"
    by (cases ops; cases "tl ops") auto
  show ?thesis
  proof (cases "match_mem_operand mem")
    case None
    with assms ops show ?thesis by (simp add: operands_mem_def)
  next
    case (Some p)
    obtain off base where p: "p = (off, base)" by (cases p)
    show ?thesis
    proof (cases "off = []")
      case True
      with assms ops Some p show ?thesis by (auto simp: operands_mem_def Let_def reg_get_bits)
    next
      case False
      with assms ops Some p py_int_cases [of off] show ?thesis
        by (auto simp: operands_mem_def Let_def reg_get_bits)
    qed
  qed
qed

lemma finish_immediate_bits:
  assumes "finish_immediate m opc (I, rd, rs1, imm, asm) = Some s"
    and "is_bit_string opc" "is_bit_string rd" "is_bit_string rs1"
    and "\<forall>s. asm = Some s \<longrightarrow> is_bit_string s"
    and "\<forall>v. imm = Some v \<longrightarrow> - (2 ^ 16) \<le> v"
  shows "is_bit_string s"
proof (cases "I = ''1'' \<and> imm \<noteq> None \<and> asm = None")
  case False
  with assms(1) have "asm = Some s" by (auto simp: finish_immediate_def)
  with assms(5) show ?thesis by simp
next
  case True
  then obtain v where v: "imm = Some v" by auto
  with assms(6) have "is_bit_string (to_binary v 16 True)" by (simp add: to_binary_bits)
  then show ?thesis
    using assms(1-4) True v
    by (auto simp: finish_immediate_def Let_def bits_simps split: if_splits)
qed


lemma encode_imm_reg_bits:
  assumes e: "encode_imm_reg m opc ops raw = Inr (Assembled (Some s))"
    and opc: "is_bit_string opc"
    and hcmp: "\<forall>x z rest v. m \<in> set [''cmp'', ''cmpu'', ''cmph''] \<longrightarrow> ops = x # z # rest \<longrightarrow>
                 py_int z = Inr v \<longrightarrow> - (2 ^ 16) \<le> v"
    and harith: "\<forall>x y z rest v.
                 m \<in> set [''sub'', ''add'', ''mul'', ''and'', ''or'',
                           ''subu'', ''addu'', ''mulu'', ''andu'', ''oru'',
                           ''subh'', ''addh'', ''mulh'', ''andh'', ''orh''] \<longrightarrow>
                 ops = x # y # z # rest \<longrightarrow> py_int z = Inr v \<longrightarrow> - (2 ^ 16) \<le> v"
    and hmov: "\<forall>x z rest v. m \<in> set [''mov'', ''movu'', ''movh'', ''not'', ''notu'', ''noth''] \<longrightarrow>
                 ops = x # z # rest \<longrightarrow> py_int z = Inr v \<longrightarrow> - (2 ^ 16) \<le> v"
    and hmem: "\<forall>x mem rest off base v. m \<in> set [''ld'', ''st''] \<longrightarrow> ops = x # mem # rest \<longrightarrow>
                 match_mem_operand mem = Some (off, base) \<longrightarrow> py_int off = Inr v \<longrightarrow>
                 - (2 ^ 16) \<le> v"
  shows "is_bit_string s"
proof -
  define c1 where "c1 = (m \<in> set [''cmp'', ''cmpu'', ''cmph''])"
  define c2 where "c2 = (m \<in> set [''sub'', ''add'', ''mul'', ''and'', ''or'',
                           ''subu'', ''addu'', ''mulu'', ''andu'', ''oru'',
                           ''subh'', ''addh'', ''mulh'', ''andh'', ''orh''])"
  define c3 where "c3 = (m \<in> set [''mov'', ''movu'', ''movh'', ''not'', ''notu'', ''noth''])"
  define c4 where "c4 = (m \<in> set [''ld'', ''st''])"
  define fs where "fs =
        (if c1 then map_sum id Inr (operands_cmp opc ops)
         else if c2 then map_sum id Inr (operands_arith opc ops)
         else if c3 then map_sum id Inr (operands_mov opc ops)
         else if c4 then operands_mem ops raw
         else Inr (Inr (''1'', ''0000'', ''0000'', Some 0, None)))"
  have eq: "encode_imm_reg m opc ops raw =
           (case fs of Inl x \<Rightarrow> Inl x | Inr (Inl d) \<Rightarrow> Inr (Skip d)
            | Inr (Inr f) \<Rightarrow> Inr (Assembled (finish_immediate m opc f)))"
    unfolding encode_imm_reg_def fs_def c1_def c2_def c3_def c4_def Let_def ..
  from e eq obtain f where f: "fs = Inr (Inr f)" and x: "finish_immediate m opc f = Some s"
    by (auto split: sum.splits)
  obtain I rd rs1 imm asm where ff: "f = (I, rd, rs1, imm, asm)" by (cases f)
  have k2: "ops = x # z # rest \<Longrightarrow> py_int z = Inr v \<Longrightarrow> c1 \<Longrightarrow> - (2 ^ 16) \<le> v" for x z rest v
    using hcmp unfolding c1_def by blast
  have k3: "ops = x # y # z # rest \<Longrightarrow> py_int z = Inr v \<Longrightarrow> c2 \<Longrightarrow> - (2 ^ 16) \<le> v"
    for x y z rest v
    using harith unfolding c2_def by blast
  have k4: "ops = x # z # rest \<Longrightarrow> py_int z = Inr v \<Longrightarrow> c3 \<Longrightarrow> - (2 ^ 16) \<le> v" for x z rest v
    using hmov unfolding c3_def by blast
  have k5: "ops = x # mem # rest \<Longrightarrow> match_mem_operand mem = Some (off, base) \<Longrightarrow>
            py_int off = Inr v \<Longrightarrow> c4 \<Longrightarrow> - (2 ^ 16) \<le> v" for x mem rest off base v
    using hmem unfolding c4_def by blast
  have "is_bit_string rd \<and> is_bit_string rs1 \<and> (\<forall>s. asm = Some s \<longrightarrow> is_bit_string s)
        \<and> (\<forall>v. imm = Some v \<longrightarrow> - (2 ^ 16) \<le> v)"
  proof (cases c1)
    case True
    with f have "map_sum id Inr (operands_cmp opc ops) = (Inr (Inr f) :: py_error + diag + fields)"
      by (simp add: fs_def)
    then have "operands_cmp opc ops = Inr (I, rd, rs1, imm, asm)"
      unfolding ff by (cases "operands_cmp opc ops") simp_all
    from operands_cmp_bits [OF this opc] k2 True show ?thesis by fastforce
  next
    case n1: False
    show ?thesis
    proof (cases c2)
      case True
      with f n1 have "map_sum id Inr (operands_arith opc ops) = (Inr (Inr f) :: py_error + diag + fields)"
        by (simp add: fs_def)
      then have "operands_arith opc ops = Inr (I, rd, rs1, imm, asm)"
        unfolding ff by (cases "operands_arith opc ops") simp_all
      from operands_arith_bits [OF this opc] k3 True show ?thesis by fastforce
    next
      case n2: False
      show ?thesis
      proof (cases c3)
        case True
        with f n1 n2 have "map_sum id Inr (operands_mov opc ops) = (Inr (Inr f) :: py_error + diag + fields)"
          by (simp add: fs_def)
        then have "operands_mov opc ops = Inr (I, rd, rs1, imm, asm)"
          unfolding ff by (cases "operands_mov opc ops") simp_all
        from operands_mov_bits [OF this opc] k4 True show ?thesis by fastforce
      next
        case n3: False
        show ?thesis
        proof (cases c4)
          case True
          with f n1 n2 n3 have "operands_mem ops raw = Inr (Inr (I, rd, rs1, imm, asm))"
            by (simp add: fs_def ff)
          from operands_mem_bits [OF this] k5 True show ?thesis by fastforce
        next
          case False
          with f n1 n2 n3 have "f = (''1'', ''0000'', ''0000'', Some 0, None)"
            by (simp add: fs_def)
          with ff have "rd = ''0000''" "rs1 = ''0000''" "imm = Some 0" "asm = None" by auto
          then show ?thesis by (simp add: bits_simps)
        qed
      qed
    qed
  qed
  with finish_immediate_bits [of m opc I rd rs1 imm asm s] x opc show ?thesis
    unfolding ff by blast
qed

lemma encode_branch_bits:
  assumes e: "encode_branch lm a m opc ops raw = Inr (Assembled (Some s))"
    and opc: "is_bit_string opc"
    and h: "\<forall>t rest target. m \<noteq> ''ret'' \<longrightarrow> ops = t # rest \<longrightarrow> lm t = Some target \<longrightarrow>
              - (2 ^ 27) \<le> target - (a + 1)"
  shows "is_bit_string s"
proof (cases "m = ''ret''")
  case True
  with e have "s = opc @ to_binary 0 27 False" by (simp add: encode_branch_def)
  with opc show ?thesis by (simp add: is_bit_string_append to_binary_zero_bits)
next
  case nr: False
  show ?thesis
  proof (cases ops)
    case Nil
    with e nr show ?thesis by (simp add: encode_branch_def)
  next
    case (Cons t r)
    show ?thesis
    proof (cases "lm t")
      case None
      with e nr Cons show ?thesis by (simp add: encode_branch_def)
    next
      case (Some ta)
      with e nr Cons have s: "s = opc @ to_binary (ta - (a + 1)) 27 True"
        by (simp add: encode_branch_def Let_def)
      from h nr Cons Some have "- (2 ^ 27) \<le> ta - (a + 1)" by blast
      then have "is_bit_string (to_binary (ta - (a + 1)) 27 True)" by (rule to_binary_bits)
      with s opc show ?thesis by (simp add: is_bit_string_append)
    qed
  qed
qed

lemma generate_bits:
  assumes g: "generate lm a m ops raw = Inr (Assembled (Some s))"
    and hbr: "\<forall>t rest target. m \<in> set [''beq'', ''bgt'', ''b'', ''call''] \<longrightarrow> ops = t # rest \<longrightarrow>
                 lm t = Some target \<longrightarrow> - (2 ^ 27) \<le> target - (a + 1)"
    and hcmp: "\<forall>x z rest v. m \<in> set [''cmp'', ''cmpu'', ''cmph''] \<longrightarrow> ops = x # z # rest \<longrightarrow>
                 py_int z = Inr v \<longrightarrow> - (2 ^ 16) \<le> v"
    and harith: "\<forall>x y z rest v.
                 m \<in> set [''sub'', ''add'', ''mul'', ''and'', ''or'',
                           ''subu'', ''addu'', ''mulu'', ''andu'', ''oru'',
                           ''subh'', ''addh'', ''mulh'', ''andh'', ''orh''] \<longrightarrow>
                 ops = x # y # z # rest \<longrightarrow> py_int z = Inr v \<longrightarrow> - (2 ^ 16) \<le> v"
    and hmov: "\<forall>x z rest v. m \<in> set [''mov'', ''movu'', ''movh'', ''not'', ''notu'', ''noth''] \<longrightarrow>
                 ops = x # z # rest \<longrightarrow> py_int z = Inr v \<longrightarrow> - (2 ^ 16) \<le> v"
    and hmem: "\<forall>x mem rest off base v. m \<in> set [''ld'', ''st''] \<longrightarrow> ops = x # mem # rest \<longrightarrow>
                 match_mem_operand mem = Some (off, base) \<longrightarrow> py_int off = Inr v \<longrightarrow>
                 - (2 ^ 16) \<le> v"
  shows "is_bit_string s"
proof (cases "OPCODES m")
  case None
  with g show ?thesis by (simp add: generate_def)
next
  case (Some opc)
  note opc = OPCODES_bits [OF Some]
  show ?thesis
  proof (cases "m \<in> set [''beq'', ''bgt'', ''b'', ''call'', ''ret'']")
    case True
    with g Some have e: "encode_branch lm a m opc ops raw = Inr (Assembled (Some s))"
      by (simp add: generate_def)
    have "\<forall>t rest target. m \<noteq> ''ret'' \<longrightarrow> ops = t # rest \<longrightarrow> lm t = Some target \<longrightarrow>
              - (2 ^ 27) \<le> target - (a + 1)"
    proof (intro allI impI)
      fix t rest target
      assume nr: "m \<noteq> ''ret''" and o: "ops = t # rest" and l: "lm t = Some target"
      from True nr have "m \<in> set [''beq'', ''bgt'', ''b'', ''call'']" by simp
      with hbr o l show "- (2 ^ 27) \<le> target - (a + 1)" by blast
    qed
    with e opc show ?thesis by (rule encode_branch_bits)
  next
    case nb: False
    show ?thesis
    proof (cases "imm_reg_class m")
      case True
      with g Some nb have "encode_imm_reg m opc ops raw = Inr (Assembled (Some s))"
        by (simp add: generate_def)
      from this opc hcmp harith hmov hmem show ?thesis by (rule encode_imm_reg_bits)
    next
      case False
      have "generate lm a m ops raw =
          (if m = ''nop''
           then Inr (Assembled (Some (the (OPCODES ''nop'') @ replicate 27 (CHR ''0''))))
           else if m = ''ret''
           then Inr (Assembled (Some (the (OPCODES ''ret'') @ replicate 27 (CHR ''0''))))
           else Inr (Skip (NotFullyImplemented m raw)))"
        unfolding generate_def using Some nb False by (simp only: option.case if_False)
      with g have gg: "Inr (Assembled (Some s)) =
          (if m = ''nop''
           then Inr (Assembled (Some (the (OPCODES ''nop'') @ replicate 27 (CHR ''0''))))
           else if m = ''ret''
           then Inr (Assembled (Some (the (OPCODES ''ret'') @ replicate 27 (CHR ''0''))))
           else (Inr (Skip (NotFullyImplemented m raw)) :: py_error + gen))"
        by simp
      have b: "is_bit_string (the (OPCODES ''nop'') @ replicate 27 (CHR ''0''))"
        "is_bit_string (the (OPCODES ''ret'') @ replicate 27 (CHR ''0''))"
        by (simp_all add: OPCODES_def bits_simps)
      show ?thesis
      proof (cases "m = ''nop''")
        case True
        with gg have "s = the (OPCODES ''nop'') @ replicate 27 (CHR ''0'')" by simp
        with b show ?thesis by simp
      next
        case n1: False
        show ?thesis
        proof (cases "m = ''ret''")
          case True
          with gg n1 have "s = the (OPCODES ''ret'') @ replicate 27 (CHR ''0'')" by simp
          with b show ?thesis by simp
        next
          case False
          with gg n1 have "Inr (Assembled (Some s)) = (Inr (Skip (NotFullyImplemented m raw)) :: py_error + gen)"
            by (simp only: if_False)
          then show ?thesis by simp
        qed
      qed
    qed
  qed
qed

lemma encode_entry_appended:
  assumes "mnemonic e = Some m"
    and "encode_entry lm a e = Inr (Appended d ln raw (Some w), a')"
  shows "\<exists>s. generate lm a m (operands e) (raw_line e) = Inr (Assembled (Some s))
             \<and> (if length s = 32 then w = s else w = replicate 32 (CHR ''0''))"
proof -
  have t: "truthy (mnemonic e)"
    using assms by (auto simp: encode_entry_def split: if_splits)
  with assms(1) have m: "m \<noteq> []" by (simp add: truthy_def)
  from assms t obtain g where g: "generate lm a m (operands e) (raw_line e) = Inr g"
    by (cases "generate lm a m (operands e) (raw_line e)") (simp_all add: encode_entry_def)
  show ?thesis
  proof (cases g)
    case (Skip d)
    with assms t g show ?thesis by (simp add: encode_entry_def)
  next
    case (Assembled x)
    with g generate_assembled obtain s where s: "x = Some s" "s \<noteq> []" by blast
    with g Assembled have gs: "generate lm a m (operands e) (raw_line e) = Inr (Assembled (Some s))"
      by simp
    from encode_entry_generated [OF assms(1) m gs] assms(2)
    have "if length s = 32 then w = s else w = replicate 32 (CHR ''0'')"
      by (auto split: if_splits)
    with gs show ?thesis by blast
  qed
qed

section \<open>An immediate below the 16-bit range\<close>

text \<open>
  For a negative immediate below \<open>-2^16\<close> the sum \<open>2^16 + v\<close> is still negative, and
  \<^verbatim>\<open>bin(...)[2:]\<close> drops \<^verbatim>\<open>-0\<close> and keeps the letter \<^verbatim>\<open>b\<close> of the prefix
  \<^verbatim>\<open>-0b\<close>: the emitted word has 32 characters, one of them not a binary digit, and
  the width check of lines 230 to 236, which compares lengths, prints nothing.
\<close>

lemma negative_immediate_word:
  "assemble ''add r1, r2, -65537''
     = Inr [Appended None 0 ''add r1, r2, -65537'' (Some ''000001000100100000000000000000b1'')]
   \<and> \<not> is_bit_string ''000001000100100000000000000000b1''"
  by (simp add: parse_eval entry_eval codec_eval is_bit_string_def)

section \<open>The claims\<close>

subsection \<open>C1: branch offsets\<close>

text \<open>
  C1, as the code has it. For a branch or call (\<^verbatim>\<open>beq\<close>, \<^verbatim>\<open>bgt\<close>, \<^verbatim>\<open>b\<close>, \<^verbatim>\<open>call\<close>)
  whose target label is bound in the symbol table, and whose offset
  \<open>target - (current_address + 1)\<close> fits the 27-bit two's-complement field
  (\<open>-2^26 \<le> offset < 2^26\<close>), the entry is encoded into a 32-bit word made of the
  opcode and of the offset field; reading the field back as a signed number gives the
  offset, and adding \<open>current_address + 1\<close> gives the target address again.
\<close>

theorem branch_offset_roundtrip:
  assumes "m \<in> set [''beq'', ''bgt'', ''b'', ''call'']"
    and "mnemonic e = Some m" and "operands e = t # rest" and "lm t = Some target"
    and "- (2 ^ 26) \<le> target - (a + 1)" and "target - (a + 1) < 2 ^ 26"
  shows "\<exists>w. encode_entry lm a e = Inr (Appended None (line_num e) (raw_line e) (Some w), a + 1)
           \<and> length w = 32
           \<and> take 5 w = the (OPCODES m)
           \<and> drop 5 w = to_binary (target - (a + 1)) 27 True
           \<and> signed_value (drop 5 w) = target - (a + 1)
           \<and> signed_value (drop 5 w) + (a + 1) = target"
proof -
  define off where "off = target - (a + 1)"
  define w where "w = the (OPCODES m) @ to_binary off 27 True"
  from assms(1) branch_class_all have "OPCODES m \<noteq> None" unfolding list_all_iff by blast
  then obtain opc where opc: "OPCODES m = Some opc" by blast
  have len5: "length (the (OPCODES m)) = 5" using OPCODES_length [OF opc] opc by simp
  have rng: "- (2 ^ (27 - 1)) \<le> off" "off < 2 ^ (27 - 1)"
    using assms(5,6) by (simp_all add: off_def)
  have len27: "length (to_binary off 27 True) = 27"
    and sv: "signed_value (to_binary off 27 True) = off"
    using to_binary_signed [OF _ rng] by simp_all
  have m: "m \<noteq> []" using assms(1) by auto
  have g: "generate lm a m (operands e) (raw_line e) = Inr (Assembled (Some w))"
    unfolding w_def off_def assms(3)
    using generate_branch [of m lm t target a rest "raw_line e"] assms(1,4) by simp
  have lw: "length w = 32" using len5 len27 by (simp add: w_def)
  have "encode_entry lm a e = Inr (Appended None (line_num e) (raw_line e) (Some w), a + 1)"
    using g lw m assms(2) by (auto simp: encode_entry_def truthy_def width_check_def)
  moreover have "take 5 w = the (OPCODES m)" using len5 by (simp add: w_def)
  moreover have "drop 5 w = to_binary off 27 True" using len5 by (simp add: w_def)
  ultimately show ?thesis using lw sv unfolding off_def by auto
qed

text \<open>
  The theorem for C1 at a backward branch: \<^verbatim>\<open>bgt .loop\<close> at address 2, with
  \<^verbatim>\<open>.loop\<close> bound to address 0.
\<close>

theorem branch_offset_roundtrip_witness:
  "\<exists>w. encode_entry [''.loop'' \<mapsto> 0] 2
          \<lparr>line_num = 7, label = None, mnemonic = Some ''bgt'', operands = [''.loop''],
           raw_line = ''bgt .loop''\<rparr>
        = Inr (Appended None 7 ''bgt .loop'' (Some w), 3)
      \<and> length w = 32 \<and> take 5 w = ''10001''
      \<and> drop 5 w = to_binary (0 - (2 + 1)) 27 True
      \<and> signed_value (drop 5 w) = 0 - (2 + 1)
      \<and> signed_value (drop 5 w) + (2 + 1) = 0"
  using branch_offset_roundtrip [of "''bgt''"
      "\<lparr>line_num = 7, label = None, mnemonic = Some ''bgt'', operands = [''.loop''],
        raw_line = ''bgt .loop''\<rparr>" "''.loop''" "[]" "[''.loop'' \<mapsto> 0]" 0 2]
  by (simp add: OPCODES_def)

text \<open>
  C1 without the range condition fails. In the test program with \<open>2^26\<close> lines
  \<^verbatim>\<open>nop\<close>, pass 1 binds \<^verbatim>\<open>.far\<close> to \<open>2^26 + 1\<close>, the branch at address 0 has
  the offset \<open>2^26\<close>, and the field that the assembler emits for it reads back as
  \<open>-2^26\<close>: there is no range check on the offset.
\<close>

theorem branch_offset_out_of_range_counterexample:
  "pass1 (long_branch_program (2 ^ 26)) ''.far'' = Some (2 ^ 26 + 1)
   \<and> map_sum id hd (assemble_entries (long_branch_program (2 ^ 26)))
       = Inr (Appended None 0 ''b .far'' (Some (''10010'' @ ''100000000000000000000000000'')))
   \<and> signed_value ''100000000000000000000000000'' = - (2 ^ 26)
   \<and> signed_value ''100000000000000000000000000'' \<noteq> (2 ^ 26 + 1) - (0 + 1)"
proof -
  have tb: "to_binary (2 ^ 26) 27 True = ''100000000000000000000000000''"
    by (simp add: codec_eval)
  have sv: "signed_value (to_binary (2 ^ 26) 27 True) = 2 ^ 26 - 2 ^ 27"
    by (rule to_binary_signed_wrap) simp_all
  have p: "pass1 (long_branch_program (2 ^ 26)) ''.far'' = Some (2 ^ 26 + 1)"
    by (simp only: pass1_long_branch_program) simp
  have "map_sum id hd (assemble_entries (long_branch_program (2 ^ 26)))
       = Inr (width_check 0 ''b .far'' (Some (''10010'' @ to_binary (int (2 ^ 26)) 27 True)))"
    by (simp only: assemble_long_branch_program map_sum.simps list.sel id_apply)
  also have "int (2 ^ 26) = 2 ^ 26" by simp
  finally have a: "map_sum id hd (assemble_entries (long_branch_program (2 ^ 26)))
       = Inr (Appended None 0 ''b .far'' (Some (''10010'' @ ''100000000000000000000000000'')))"
    by (simp only: tb) (simp add: width_check_def truthy_def)
  from sv have s: "signed_value ''100000000000000000000000000'' = - (2 ^ 26)"
    by (simp only: tb) simp
  from p a s show ?thesis by simp
qed

subsection \<open>C2: the addresses of labels\<close>

text \<open>
  C2. The address counter of pass 1 ends at the number of instruction-bearing entries.
  An entry without a mnemonic does not advance it. An entry \<open>i\<close> that carries a
  (non-empty) label \<open>l\<close> binds \<open>l\<close> to the number of instruction-bearing entries
  before \<open>i\<close>; that is the value of \<open>l\<close> in the finished table when no later entry
  carries \<open>l\<close> again; and when the entries from \<open>i\<close> up to \<open>k\<close> carry no mnemonic,
  it is the number of instruction-bearing entries before \<open>k\<close>, the address at which
  pass 2 encodes entry \<open>k\<close> (\<open>pass2_nth\<close>): a label on a line without a mnemonic
  denotes the next instruction-bearing line. A blank or comment-only line of the source
  is dropped by the driver and leaves pass 1 as it is without that line.
\<close>

theorem pass1_label_addresses:
  "snd (pass1_loop es (Map.empty, 0)) = count_instructions es
   \<and> (i < length es \<longrightarrow>
        (\<not> truthy (mnemonic (es ! i)) \<longrightarrow>
           count_instructions (take (Suc i) es) = count_instructions (take i es))
        \<and> (label (es ! i) = Some l \<longrightarrow> l \<noteq> [] \<longrightarrow>
             fst (pass1_loop (take (Suc i) es) (Map.empty, 0)) l
               = Some (count_instructions (take i es))
             \<and> ((\<forall>e \<in> set (drop (Suc i) es). label e \<noteq> Some l) \<longrightarrow>
                  pass1 es l = Some (count_instructions (take i es)))
             \<and> (i \<le> k \<longrightarrow> (\<forall>e \<in> set (drop i (take k es)). \<not> truthy (mnemonic e)) \<longrightarrow>
                  count_instructions (take k es) = count_instructions (take i es))))
   \<and> (strip b = [] \<or> startswith (strip b) '';'' \<longrightarrow>
        pass1_loop (collect_entries 0 (xs @ b # ys)) st
          = pass1_loop (collect_entries 0 (xs @ ys)) st)"
proof (intro conjI impI)
  show "snd (pass1_loop es (Map.empty, 0)) = count_instructions es"
    by (simp add: pass1_loop_counter)
next
  assume "i < length es" "\<not> truthy (mnemonic (es ! i))"
  then show "count_instructions (take (Suc i) es) = count_instructions (take i es)"
    by (simp add: count_instructions_take_Suc)
next
  assume i: "i < length es" and l: "label (es ! i) = Some l" "l \<noteq> []"
  have "fst (pass1_loop (take (Suc i) es) (Map.empty, 0)) l
          = Some (0 + count_instructions (take i (take (Suc i) es)))"
    by (rule pass1_loop_last_binding) (use i l in simp_all)
  then show "fst (pass1_loop (take (Suc i) es) (Map.empty, 0)) l
               = Some (count_instructions (take i es))"
    by (simp add: min_def)
next
  assume i: "i < length es" and l: "label (es ! i) = Some l" "l \<noteq> []"
    and later: "\<forall>e \<in> set (drop (Suc i) es). label e \<noteq> Some l"
  from pass1_loop_last_binding [OF i l later, of Map.empty 0]
  show "pass1 es l = Some (count_instructions (take i es))"
    by (simp add: pass1_def)
next
  assume "i \<le> k" "\<forall>e \<in> set (drop i (take k es)). \<not> truthy (mnemonic e)"
  then show "count_instructions (take k es) = count_instructions (take i es)"
    by (rule count_instructions_gap)
next
  assume "strip b = [] \<or> startswith (strip b) '';''"
  then show "pass1_loop (collect_entries 0 (xs @ b # ys)) st
          = pass1_loop (collect_entries 0 (xs @ ys)) st"
    by (rule pass1_loop_blank_line)
qed

text \<open>
  The theorem for C2 at the entries of \<^verbatim>\<open>nop\<close>, \<^verbatim>\<open>.a:\<close>, \<^verbatim>\<open>.b: ret\<close>: the label
  \<^verbatim>\<open>.a\<close>, on a line of its own, is bound to 1, the address of \<^verbatim>\<open>ret\<close>; and a comment
  line between two lines changes nothing.
\<close>

theorem pass1_label_addresses_witness:
  "snd (pass1_loop
      [\<lparr>line_num = 0, label = None, mnemonic = Some ''nop'', operands = [], raw_line = ''nop''\<rparr>,
       \<lparr>line_num = 1, label = Some ''.a'', mnemonic = None, operands = [], raw_line = ''.a:''\<rparr>,
       \<lparr>line_num = 2, label = Some ''.b'', mnemonic = Some ''ret'', operands = [],
        raw_line = ''.b: ret''\<rparr>] (Map.empty, 0)) = 2
   \<and> pass1
      [\<lparr>line_num = 0, label = None, mnemonic = Some ''nop'', operands = [], raw_line = ''nop''\<rparr>,
       \<lparr>line_num = 1, label = Some ''.a'', mnemonic = None, operands = [], raw_line = ''.a:''\<rparr>,
       \<lparr>line_num = 2, label = Some ''.b'', mnemonic = Some ''ret'', operands = [],
        raw_line = ''.b: ret''\<rparr>] ''.a'' = Some 1
   \<and> count_instructions (take 2
      [\<lparr>line_num = 0, label = None, mnemonic = Some ''nop'', operands = [], raw_line = ''nop''\<rparr>,
       \<lparr>line_num = 1, label = Some ''.a'', mnemonic = None, operands = [], raw_line = ''.a:''\<rparr>,
       \<lparr>line_num = 2, label = Some ''.b'', mnemonic = Some ''ret'', operands = [],
        raw_line = ''.b: ret''\<rparr>]) = 1
   \<and> pass1_loop (collect_entries 0 ([''nop''] @ ''; a comment'' # [''.a: ret''])) (Map.empty, 0)
       = pass1_loop (collect_entries 0 ([''nop''] @ [''.a: ret''])) (Map.empty, 0)"
  using pass1_label_addresses
    [of "[\<lparr>line_num = 0, label = None, mnemonic = Some ''nop'', operands = [], raw_line = ''nop''\<rparr>,
       \<lparr>line_num = 1, label = Some ''.a'', mnemonic = None, operands = [], raw_line = ''.a:''\<rparr>,
       \<lparr>line_num = 2, label = Some ''.b'', mnemonic = Some ''ret'', operands = [],
        raw_line = ''.b: ret''\<rparr>]" 1 "''.a''" 2 "''; a comment''" "[''nop'']" "[''.a: ret'']"
        "(Map.empty, 0)"]
  by (simp add: count_instructions_def truthy_def strip_def is_space_def startswith_def)

subsection \<open>C3: one result per entry\<close>

text \<open>
  C3 at inputs the code cannot finish. In the first program the second entry,
  \<^verbatim>\<open>ld r1, -[sp]\<close>, has a malformed memory operand: the pattern accepts the bare
  minus sign as the offset text, and \<^verbatim>\<open>int('-')\<close> raises \<^verbatim>\<open>ValueError\<close>. In the second
  program \<^verbatim>\<open>add r1\<close> has no second operand, and \<^verbatim>\<open>operands[1]\<close> raises
  \<^verbatim>\<open>IndexError\<close>. In both, pass 2 leaves no result for either entry. (When pass 2 does
  return, \<open>pass2_results\<close> and \<open>pass2_nth\<close> above give what C3 says: one result per
  entry, none of them silent, each encoded at the address that pass 1 counted.)
\<close>

theorem pass2_no_results_after_raise:
  "pass2 Map.empty 0
     [\<lparr>line_num = 0, label = None, mnemonic = Some ''nop'', operands = [], raw_line = ''nop''\<rparr>,
      \<lparr>line_num = 1, label = None, mnemonic = Some ''ld'', operands = [''r1'', ''-[sp]''],
       raw_line = ''ld r1, -[sp]''\<rparr>]
   = Inl ValueError
   \<and> assemble ''nop\<newline>ld r1, -[sp]'' = Inl ValueError
   \<and> pass2 Map.empty 0
     [\<lparr>line_num = 0, label = None, mnemonic = Some ''nop'', operands = [], raw_line = ''nop''\<rparr>,
      \<lparr>line_num = 1, label = None, mnemonic = Some ''add'', operands = [''r1''],
       raw_line = ''add r1''\<rparr>]
   = Inl IndexError
   \<and> assemble ''nop\<newline>add r1'' = Inl IndexError"
  by (simp add: parse_eval entry_eval codec_eval)

subsection \<open>C4: the width of the emitted words\<close>

text \<open>
  C4, as the code has it. Take an entry with a mnemonic whose immediate (the decimal
  operand of \<^verbatim>\<open>cmp\<close>, of \<^verbatim>\<open>mov\<close> and \<^verbatim>\<open>not\<close>, of the arithmetic and logic
  instructions, or the offset of the memory operand of \<^verbatim>\<open>ld\<close> and \<^verbatim>\<open>st\<close>) is not
  below \<open>-2^16\<close>, and whose branch offset \<open>target - (current_address + 1)\<close> is not
  below \<open>-2^27\<close>. Then the word that pass 2 places in the output for the entry is
  exactly 32 bits wide: 32 characters, each a binary digit. When the encoder has
  generated a string \<open>s\<close> for an entry, the entry's result is \<open>s\<close> itself if \<open>s\<close> is 32
  long; otherwise it is the message about the length together with the placeholder
  word of thirty-two zero bits, which is appended to the output in place of \<open>s\<close>. The
  string is never padded or truncated.
\<close>

theorem output_width:
  "(mnemonic e = Some m \<longrightarrow>
    encode_entry lm a e = Inr (Appended d ln raw (Some w), a') \<longrightarrow>
    (\<forall>t rest target. m \<in> set [''beq'', ''bgt'', ''b'', ''call''] \<longrightarrow> operands e = t # rest \<longrightarrow>
        lm t = Some target \<longrightarrow> - (2 ^ 27) \<le> target - (a + 1)) \<longrightarrow>
    (\<forall>x z rest v. m \<in> set [''cmp'', ''cmpu'', ''cmph''] \<longrightarrow> operands e = x # z # rest \<longrightarrow>
        py_int z = Inr v \<longrightarrow> - (2 ^ 16) \<le> v) \<longrightarrow>
    (\<forall>x y z rest v.
        m \<in> set [''sub'', ''add'', ''mul'', ''and'', ''or'',
                  ''subu'', ''addu'', ''mulu'', ''andu'', ''oru'',
                  ''subh'', ''addh'', ''mulh'', ''andh'', ''orh''] \<longrightarrow>
        operands e = x # y # z # rest \<longrightarrow> py_int z = Inr v \<longrightarrow> - (2 ^ 16) \<le> v) \<longrightarrow>
    (\<forall>x z rest v. m \<in> set [''mov'', ''movu'', ''movh'', ''not'', ''notu'', ''noth''] \<longrightarrow>
        operands e = x # z # rest \<longrightarrow> py_int z = Inr v \<longrightarrow> - (2 ^ 16) \<le> v) \<longrightarrow>
    (\<forall>x mem rest off base v. m \<in> set [''ld'', ''st''] \<longrightarrow> operands e = x # mem # rest \<longrightarrow>
        match_mem_operand mem = Some (off, base) \<longrightarrow> py_int off = Inr v \<longrightarrow> - (2 ^ 16) \<le> v) \<longrightarrow>
    length w = 32 \<and> is_bit_string w)
   \<and> (mnemonic e = Some m \<longrightarrow> m \<noteq> [] \<longrightarrow>
      generate lm a m (operands e) (raw_line e) = Inr (Assembled (Some s)) \<longrightarrow>
      encode_entry lm a e =
        Inr (if length s = 32
             then Appended None (line_num e) (raw_line e) (Some s)
             else Appended (Some (LengthNot32 (length s) (raw_line e))) (line_num e) (raw_line e)
                    (Some (replicate 32 (CHR ''0''))),
             a + 1))"
proof (intro conjI impI)
  assume m: "mnemonic e = Some m"
    and r: "encode_entry lm a e = Inr (Appended d ln raw (Some w), a')"
    and hbr: "\<forall>t rest target. m \<in> set [''beq'', ''bgt'', ''b'', ''call''] \<longrightarrow> operands e = t # rest \<longrightarrow>
        lm t = Some target \<longrightarrow> - (2 ^ 27) \<le> target - (a + 1)"
    and hcmp: "\<forall>x z rest v. m \<in> set [''cmp'', ''cmpu'', ''cmph''] \<longrightarrow> operands e = x # z # rest \<longrightarrow>
        py_int z = Inr v \<longrightarrow> - (2 ^ 16) \<le> v"
    and harith: "\<forall>x y z rest v.
        m \<in> set [''sub'', ''add'', ''mul'', ''and'', ''or'',
                  ''subu'', ''addu'', ''mulu'', ''andu'', ''oru'',
                  ''subh'', ''addh'', ''mulh'', ''andh'', ''orh''] \<longrightarrow>
        operands e = x # y # z # rest \<longrightarrow> py_int z = Inr v \<longrightarrow> - (2 ^ 16) \<le> v"
    and hmov: "\<forall>x z rest v. m \<in> set [''mov'', ''movu'', ''movh'', ''not'', ''notu'', ''noth''] \<longrightarrow>
        operands e = x # z # rest \<longrightarrow> py_int z = Inr v \<longrightarrow> - (2 ^ 16) \<le> v"
    and hmem: "\<forall>x mem rest off base v. m \<in> set [''ld'', ''st''] \<longrightarrow> operands e = x # mem # rest \<longrightarrow>
        match_mem_operand mem = Some (off, base) \<longrightarrow> py_int off = Inr v \<longrightarrow> - (2 ^ 16) \<le> v"
  from r show "length w = 32" by (rule encode_entry_word)
  from encode_entry_appended [OF m r] obtain s'
    where g: "generate lm a m (operands e) (raw_line e) = Inr (Assembled (Some s'))"
      and w: "if length s' = 32 then w = s' else w = replicate 32 (CHR ''0'')" by blast
  from g hbr hcmp harith hmov hmem have "is_bit_string s'" by (rule generate_bits)
  with w show "is_bit_string w" by (simp add: is_bit_string_replicate split: if_splits)
next
  assume m: "mnemonic e = Some m" "m \<noteq> []"
    and g: "generate lm a m (operands e) (raw_line e) = Inr (Assembled (Some s))"
  then show "encode_entry lm a e =
        Inr (if length s = 32
             then Appended None (line_num e) (raw_line e) (Some s)
             else Appended (Some (LengthNot32 (length s) (raw_line e))) (line_num e) (raw_line e)
                    (Some (replicate 32 (CHR ''0''))),
             a + 1)"
    by (rule encode_entry_generated)
qed

text \<open>
  The theorem for C4 at \<^verbatim>\<open>add r1, r2, -5\<close>, whose word has the 16-bit
  two's-complement field of \<open>-5\<close>, and at \<^verbatim>\<open>add r1, r2, 65536\<close>, whose generated
  string has 33 characters.
\<close>

theorem output_width_witness:
  "encode_entry Map.empty 0
        \<lparr>line_num = 0, label = None, mnemonic = Some ''add'',
         operands = [''r1'', ''r2'', ''-5''], raw_line = ''add r1, r2, -5''\<rparr>
       = Inr (Appended None 0 ''add r1, r2, -5'' (Some ''00000100010010001111111111111011''), 1)
   \<and> py_int ''-5'' = Inr (- 5)
   \<and> length ''00000100010010001111111111111011'' = 32
   \<and> is_bit_string ''00000100010010001111111111111011''
   \<and> generate Map.empty 0 ''add'' [''r1'', ''r2'', ''65536''] ''add r1, r2, 65536''
       = Inr (Assembled (Some ''000001000100100010000000000000000''))
   \<and> encode_entry Map.empty 0
        \<lparr>line_num = 0, label = None, mnemonic = Some ''add'',
         operands = [''r1'', ''r2'', ''65536''], raw_line = ''add r1, r2, 65536''\<rparr>
       = Inr (Appended (Some (LengthNot32 33 ''add r1, r2, 65536'')) 0 ''add r1, r2, 65536''
                (Some ''00000000000000000000000000000000''), 1)"
  using output_width
    [of "\<lparr>line_num = 0, label = None, mnemonic = Some ''add'',
           operands = [''r1'', ''r2'', ''-5''], raw_line = ''add r1, r2, -5''\<rparr>"
        "''add''" Map.empty 0 None 0 "''add r1, r2, -5''" "''00000100010010001111111111111011''" 1
        "''00000100010010001111111111111011''"]
    output_width
    [of "\<lparr>line_num = 0, label = None, mnemonic = Some ''add'',
           operands = [''r1'', ''r2'', ''65536''], raw_line = ''add r1, r2, 65536''\<rparr>"
        "''add''" Map.empty 0 None 0 "''add r1, r2, 65536''" "''00000000000000000000000000000000''" 1
        "''000001000100100010000000000000000''"]
  by (simp add: entry_eval codec_eval)

text \<open>
  C4 as stated fails: the string generated for \<^verbatim>\<open>add r1, r2, 65536\<close> is 33
  characters long, and the line still gets a word in the output, the placeholder.
\<close>

theorem width_mismatch_placeholder_counterexample:
  "assemble ''add r1, r2, 65536''
     = Inr [Appended (Some (LengthNot32 33 ''add r1, r2, 65536'')) 0 ''add r1, r2, 65536''
              (Some ''00000000000000000000000000000000'')]
   \<and> machine_code [Appended (Some (LengthNot32 33 ''add r1, r2, 65536'')) 0 ''add r1, r2, 65536''
              (Some ''00000000000000000000000000000000'')]
     = [(0, ''add r1, r2, 65536'', Some ''00000000000000000000000000000000'')]"
  by (simp add: parse_eval entry_eval codec_eval)

subsection \<open>C5: a label defined twice\<close>

text \<open>
  C5, as the code has it. Pass 1 has no check for a label that is defined again: the
  dictionary store overwrites the binding, and pass 1 prints no diagnostic. So the
  last binding wins: when entry \<open>i\<close> is the last one to carry the label \<open>l\<close>, the table
  binds \<open>l\<close> to the number of instruction-bearing entries before \<open>i\<close>, and every
  branch or call that names \<open>l\<close> is encoded with the offset to that address.
\<close>

theorem duplicate_label_last_binding:
  assumes "i < length es" and "label (es ! i) = Some l" and "l \<noteq> []"
    and "\<forall>e \<in> set (drop (Suc i) es). label e \<noteq> Some l"
    and "m \<in> set [''beq'', ''bgt'', ''b'', ''call'']"
  shows "pass1 es l = Some (count_instructions (take i es))
         \<and> generate (pass1 es) a m (l # rest) raw
             = Inr (Assembled (Some (the (OPCODES m)
                      @ to_binary (count_instructions (take i es) - (a + 1)) 27 True)))"
proof -
  from pass1_loop_last_binding [OF assms(1-4), of Map.empty 0]
  have b: "pass1 es l = Some (count_instructions (take i es))" by (simp add: pass1_def)
  from generate_branch [of m "pass1 es" l "count_instructions (take i es)" a rest raw] assms(5) b
  show ?thesis by simp
qed

text \<open>
  The theorem for C5 at the entries of \<^verbatim>\<open>.L: nop\<close>, \<^verbatim>\<open>.L: nop\<close>, \<^verbatim>\<open>b .L\<close>.
\<close>

theorem duplicate_label_last_binding_witness:
  "pass1
     [\<lparr>line_num = 0, label = Some ''.L'', mnemonic = Some ''nop'', operands = [],
       raw_line = ''.L: nop''\<rparr>,
      \<lparr>line_num = 1, label = Some ''.L'', mnemonic = Some ''nop'', operands = [],
       raw_line = ''.L: nop''\<rparr>,
      \<lparr>line_num = 2, label = None, mnemonic = Some ''b'', operands = [''.L''],
       raw_line = ''b .L''\<rparr>] ''.L'' = Some 1
   \<and> generate (pass1
     [\<lparr>line_num = 0, label = Some ''.L'', mnemonic = Some ''nop'', operands = [],
       raw_line = ''.L: nop''\<rparr>,
      \<lparr>line_num = 1, label = Some ''.L'', mnemonic = Some ''nop'', operands = [],
       raw_line = ''.L: nop''\<rparr>,
      \<lparr>line_num = 2, label = None, mnemonic = Some ''b'', operands = [''.L''],
       raw_line = ''b .L''\<rparr>]) 2 ''b'' [''.L''] ''b .L''
       = Inr (Assembled (Some (''10010'' @ to_binary (1 - (2 + 1)) 27 True)))"
  using duplicate_label_last_binding
    [of 1 "[\<lparr>line_num = 0, label = Some ''.L'', mnemonic = Some ''nop'', operands = [],
       raw_line = ''.L: nop''\<rparr>,
      \<lparr>line_num = 1, label = Some ''.L'', mnemonic = Some ''nop'', operands = [],
       raw_line = ''.L: nop''\<rparr>,
      \<lparr>line_num = 2, label = None, mnemonic = Some ''b'', operands = [''.L''],
       raw_line = ''b .L''\<rparr>]" "''.L''" "''b''" 2 "[]" "''b .L''"]
  by (simp add: count_instructions_def truthy_def OPCODES_def)

text \<open>
  C5 as stated fails. In the program \<^verbatim>\<open>.L: nop\<close>, \<^verbatim>\<open>.L: nop\<close>, \<^verbatim>\<open>b .L\<close> the
  label is first defined at address 0 and again at address 1. Pass 1 binds it to 1,
  the run prints nothing, and the branch at address 2 gets the offset \<open>1 - 3\<close>, not
  \<open>0 - 3\<close>.
\<close>

theorem duplicate_label_first_binding_counterexample:
  "pass1 (processed_lines ''.L: nop\<newline>.L: nop\<newline>b .L'') ''.L'' = Some 1
   \<and> assemble ''.L: nop\<newline>.L: nop\<newline>b .L''
       = Inr [Appended None 0 ''.L: nop'' (Some ''01101000000000000000000000000000''),
              Appended None 1 ''.L: nop'' (Some ''01101000000000000000000000000000''),
              Appended None 2 ''b .L'' (Some (''10010'' @ ''111111111111111111111111110''))]
   \<and> printed
        [Appended None 0 ''.L: nop'' (Some ''01101000000000000000000000000000''),
         Appended None 1 ''.L: nop'' (Some ''01101000000000000000000000000000''),
         Appended None 2 ''b .L'' (Some (''10010'' @ ''111111111111111111111111110''))] = []
   \<and> signed_value ''111111111111111111111111110'' = 1 - (2 + 1)
   \<and> signed_value ''111111111111111111111111110'' \<noteq> 0 - (2 + 1)"
  by (simp add: parse_eval entry_eval codec_eval signed_value_def unsigned_value_def)

subsection \<open>C6: the modifier field\<close>

text \<open>
  C6. Let an entry whose mnemonic is in the immediate/register class (line 143) be
  encoded into a word \<open>w\<close> without a message. Then \<open>w\<close> has 32 characters and its
  format bit (index 5) is \<^verbatim>\<open>1\<close> or \<^verbatim>\<open>0\<close>. In the immediate format the two characters
  before the 16-bit immediate are \<^verbatim>\<open>01\<close> when the mnemonic ends in \<^verbatim>\<open>u\<close>, \<^verbatim>\<open>10\<close>
  when it ends in \<^verbatim>\<open>h\<close>, and \<^verbatim>\<open>00\<close> otherwise, and the last 16 characters are the
  codec's output for the immediate. In the register format the last 14 characters are
  zeros.
\<close>

theorem modifier_field:
  assumes "mnemonic e = Some m" and "imm_reg_class m"
    and "encode_entry lm a e = Inr (Appended None ln raw (Some w), a')"
  shows "length w = 32
         \<and> (w ! 5 = CHR ''1'' \<or> w ! 5 = CHR ''0'')
         \<and> (w ! 5 = CHR ''1'' \<longrightarrow>
              take 2 (drop 14 w) = modifier_bits m \<and> (\<exists>v. drop 16 w = to_binary v 16 True))
         \<and> (w ! 5 = CHR ''0'' \<longrightarrow> drop 18 w = replicate 14 (CHR ''0''))"
proof -
  from encode_entry_word_generated [OF assms(1,3)]
  have g: "generate lm a m (operands e) (raw_line e) = Inr (Assembled (Some w))"
    and len: "length w = 32" by simp_all
  from generate_imm_reg [OF assms(2), of lm a "operands e" "raw_line e"] g
  obtain opc where opc: "length opc = 5"
    and enc: "encode_imm_reg m opc (operands e) (raw_line e) = Inr (Assembled (Some w))"
    by auto
  have l2: "length (modifier_bits m) = 2" by (simp add: modifier_bits_def)
  from encode_imm_reg_shape [OF enc] code_modifier [OF assms(2)]
  obtain rd rs1 where r: "length rd = 4" "length rs1 = 4"
    and c: "(\<exists>v. w = opc @ ''1'' @ rd @ rs1 @ modifier_bits m @ to_binary v 16 True) \<or>
            (\<exists>rs2. length rs2 = 4 \<and> w = opc @ ''0'' @ rd @ rs1 @ rs2 @ zeros14)"
    by auto
  from c show ?thesis
  proof
    assume "\<exists>v. w = opc @ ''1'' @ rd @ rs1 @ modifier_bits m @ to_binary v 16 True"
    then obtain v where w: "w = opc @ ''1'' @ rd @ rs1 @ modifier_bits m @ to_binary v 16 True"
      by blast
    have "w ! 5 = CHR ''1''" using opc by (simp add: w nth_append)
    moreover have "take 2 (drop 14 w) = modifier_bits m" using opc r l2 by (simp add: w)
    moreover have "drop 16 w = to_binary v 16 True" using opc r l2 by (simp add: w)
    ultimately show ?thesis using len by auto
  next
    assume "\<exists>rs2. length rs2 = 4 \<and> w = opc @ ''0'' @ rd @ rs1 @ rs2 @ zeros14"
    then obtain rs2 where rs2: "length rs2 = 4" and w: "w = opc @ ''0'' @ rd @ rs1 @ rs2 @ zeros14"
      by blast
    have "w ! 5 = CHR ''0''" using opc by (simp add: w nth_append)
    moreover have "drop 18 w = replicate 14 (CHR ''0'')" using opc r rs2 by (simp add: w zeros14_def)
    ultimately show ?thesis using len by auto
  qed
qed

text \<open>
  The theorem for C6 at \<^verbatim>\<open>addu r1, r2, 5\<close> (immediate format, modifier \<^verbatim>\<open>01\<close>) and
  at \<^verbatim>\<open>andh r1, r2, r3\<close> (register format).
\<close>

theorem modifier_field_witness:
  "encode_entry Map.empty 0
     \<lparr>line_num = 0, label = None, mnemonic = Some ''addu'', operands = [''r1'', ''r2'', ''5''],
      raw_line = ''addu r1, r2, 5''\<rparr>
     = Inr (Appended None 0 ''addu r1, r2, 5''
             (Some (''00000'' @ ''1'' @ ''0001'' @ ''0010'' @ ''01'' @ ''0000000000000101'')), 1)
   \<and> take 2 (drop 14 (''00000'' @ ''1'' @ ''0001'' @ ''0010'' @ ''01'' @ ''0000000000000101''))
       = modifier_bits ''addu''
   \<and> modifier_bits ''addu'' = ''01''
   \<and> encode_entry Map.empty 0
     \<lparr>line_num = 0, label = None, mnemonic = Some ''andh'', operands = [''r1'', ''r2'', ''r3''],
      raw_line = ''andh r1, r2, r3''\<rparr>
     = Inr (Appended None 0 ''andh r1, r2, r3''
             (Some (''00110'' @ ''0'' @ ''0001'' @ ''0010'' @ ''0011'' @ ''00000000000000'')), 1)
   \<and> drop 18 (''00110'' @ ''0'' @ ''0001'' @ ''0010'' @ ''0011'' @ ''00000000000000'')
       = replicate 14 (CHR ''0'')"
  using modifier_field
    [of "\<lparr>line_num = 0, label = None, mnemonic = Some ''addu'',
          operands = [''r1'', ''r2'', ''5''], raw_line = ''addu r1, r2, 5''\<rparr>" "''addu''"
        Map.empty 0 0 "''addu r1, r2, 5''"
        "''00000'' @ ''1'' @ ''0001'' @ ''0010'' @ ''01'' @ ''0000000000000101''" 1]
    modifier_field
    [of "\<lparr>line_num = 0, label = None, mnemonic = Some ''andh'',
          operands = [''r1'', ''r2'', ''r3''], raw_line = ''andh r1, r2, r3''\<rparr>" "''andh''"
        Map.empty 0 0 "''andh r1, r2, r3''"
        "''00110'' @ ''0'' @ ''0001'' @ ''0010'' @ ''0011'' @ ''00000000000000''" 1]
  by (simp add: entry_eval codec_eval modifier_bits_def)

subsection \<open>C7: the bit-field codec\<close>

text \<open>
  C7, as the code has it, for a positive width \<open>w\<close>. Unsigned: a value in
  \<open>0 \<le> v < 2^w\<close> gives the \<open>w\<close>-bit binary numeral of \<open>v\<close>; a value of \<open>2^w\<close>
  or more gives a longer string, and nothing is raised. Signed: a value in
  \<open>-2^(w-1) \<le> v < 2^(w-1)\<close> gives its \<open>w\<close>-bit two's-complement representation,
  and a negative value is converted as \<open>2^w + v\<close>.
\<close>

theorem to_binary_contract:
  "0 < w \<Longrightarrow>
   (0 \<le> v \<and> v < 2 ^ w \<longrightarrow>
      length (to_binary v w False) = w \<and> is_bit_string (to_binary v w False) \<and>
      unsigned_value (to_binary v w False) = v)
   \<and> (2 ^ w \<le> v \<longrightarrow> w < length (to_binary v w False))
   \<and> (- (2 ^ (w - 1)) \<le> v \<and> v < 2 ^ (w - 1) \<longrightarrow>
      length (to_binary v w True) = w \<and> is_bit_string (to_binary v w True) \<and>
      signed_value (to_binary v w True) = v \<and>
      (v < 0 \<longrightarrow> to_binary v w True = to_binary (2 ^ w + v) w False))"
  using to_binary_in_range [of w v False] to_binary_too_wide [of w v False]
    to_binary_signed [of w v] to_binary_negative [of v w]
  by blast

text \<open>
  The theorem for C7 at width 16: the values 5, 65536 and -3.
\<close>

theorem to_binary_contract_witness:
  "length (to_binary 5 16 False) = 16 \<and> unsigned_value (to_binary 5 16 False) = 5
   \<and> 16 < length (to_binary 65536 16 False)
   \<and> signed_value (to_binary (- 3) 16 True) = - 3
   \<and> to_binary (- 3) 16 True = to_binary (2 ^ 16 + - 3) 16 False"
  using to_binary_contract [of 16 5] to_binary_contract [of 16 65536]
    to_binary_contract [of 16 "- 3"]
  by auto

text \<open>
  C7 as stated fails: in unsigned mode the value 4 at width 2 is out of range; the
  codec raises nothing and returns a string of three characters.
\<close>

theorem to_binary_no_range_check_counterexample:
  "to_binary 4 2 False = ''100'' \<and> length (to_binary 4 2 False) \<noteq> 2"
  by (simp add: codec_eval)

subsection \<open>C8: the word of \<^verbatim>\<open>cmp r1, 5\<close>\<close>

text \<open>
  C8. At every address and with every symbol table, the entry \<^verbatim>\<open>cmp r1, 5\<close> is
  encoded as opcode \<^verbatim>\<open>00101\<close>, I = 1, rd = \<^verbatim>\<open>0000\<close>, rs1 = \<^verbatim>\<open>0001\<close> (the code
  of \<^verbatim>\<open>r1\<close>), modifier \<^verbatim>\<open>00\<close> and the 16-bit two's complement of 5; the same
  word comes out of \<^verbatim>\<open>assemble\<close> for the source text. (The destination field is
  \<^verbatim>\<open>0000\<close> for every \<^verbatim>\<open>cmp\<close>, whatever its operands: \<open>generate_cmp_fields\<close>.)
\<close>

theorem cmp_r1_5_word:
  "encode_entry lm a \<lparr>line_num = n, label = lab, mnemonic = Some ''cmp'',
                       operands = [''r1'', ''5''], raw_line = raw\<rparr>
     = Inr (Appended None n raw
             (Some (''00101'' @ ''1'' @ ''0000'' @ ''0001'' @ ''00'' @ ''0000000000000101'')),
            a + 1)
   \<and> OPCODES ''cmp'' = Some ''00101''
   \<and> REGISTERS ''r1'' = Some ''0001''
   \<and> to_binary 5 16 True = ''0000000000000101''
   \<and> signed_value ''0000000000000101'' = 5
   \<and> assemble ''cmp r1, 5''
       = Inr [Appended None 0 ''cmp r1, 5'' (Some ''00101100000001000000000000000101'')]"
proof -
  have "encode_entry lm a \<lparr>line_num = n, label = lab, mnemonic = Some ''cmp'',
                       operands = [''r1'', ''5''], raw_line = raw\<rparr>
     = Inr (Appended None n raw
             (Some (''00101'' @ ''1'' @ ''0000'' @ ''0001'' @ ''00'' @ ''0000000000000101'')),
            a + 1)"
    by (simp add: entry_eval codec_eval)
  moreover have "OPCODES ''cmp'' = Some ''00101''" by (simp add: OPCODES_def)
  moreover have "REGISTERS ''r1'' = Some ''0001''" by (simp add: REGISTERS_def)
  moreover have "to_binary 5 16 True = ''0000000000000101''" by (simp add: codec_eval)
  moreover have "signed_value ''0000000000000101'' = 5"
    by (simp add: signed_value_def unsigned_value_def)
  moreover have "assemble ''cmp r1, 5''
       = Inr [Appended None 0 ''cmp r1, 5'' (Some ''00101100000001000000000000000101'')]"
    by (simp add: parse_eval entry_eval codec_eval)
  ultimately show ?thesis by (simp only: simp_thms)
qed

subsection \<open>C9: failures that end the run\<close>

text \<open>
  C9 at inputs the code cannot finish. The line \<^verbatim>\<open>b\<close> parses into a branch with
  no operand, and \<^verbatim>\<open>operands[0]\<close> raises \<^verbatim>\<open>IndexError\<close>; the memory operand
  \<^verbatim>\<open>-[sp]\<close> matches the pattern with the offset text \<^verbatim>\<open>-\<close>, and \<^verbatim>\<open>int('-')\<close>
  raises \<^verbatim>\<open>ValueError\<close>. No message is printed and no line after it is processed.
\<close>

theorem missing_operand_raises:
  "assemble ''b'' = Inl IndexError
   \<and> processed_lines ''b''
       = [\<lparr>line_num = 0, label = None, mnemonic = Some ''b'', operands = [], raw_line = ''b''\<rparr>]
   \<and> assemble ''ld r1, -[sp]'' = Inl ValueError"
  by (simp add: parse_eval entry_eval codec_eval)

subsection \<open>C10: tokens that are not register names\<close>



end
